theory Spec2Isabelle
  imports Complex_Main "HOL-Library.Word"
begin

unbundle bit_operations_syntax

section \<open>Request logging (db/reqlog.c): data model\<close>

text \<open>
  The C \<open>unsigned\<close> masks and counters are 32-bit words. C \<open>int\<close> values are modelled
  as \<open>int\<close>; where the C arithmetic could leave the range of \<open>int\<close> or an array access
  could leave its array, the model returns \<open>None\<close> (the C behaviour is undefined there).
  A C string is the list of its characters, without the terminating NUL; a fixed
  buffer (\<open>char prefix[256]\<close>, \<open>char dumpline[1024]\<close>) is the list of all its bytes.
\<close>

type_synonym u32 = "32 word"

definition INT_MAX :: int where
  "INT_MAX = 2147483647"

definition INT_MIN :: int where
  "INT_MIN = - 2147483648"

text \<open>\<open>a[i] = v\<close> on a C array: defined only inside the array.\<close>

definition store :: "'a list \<Rightarrow> int \<Rightarrow> 'a \<Rightarrow> 'a list option" where
  "store a i v = (if 0 \<le> i \<and> i < int (length a) then Some (a[nat i := v]) else None)"

text \<open>
  \<open>memcpy(dst + off, src, n)\<close>: defined when the \<open>n\<close> bytes lie inside both arrays.
  A negative \<open>n\<close> converts to a huge \<open>size_t\<close> and is never inside.
\<close>

definition memcpy :: "char list \<Rightarrow> int \<Rightarrow> char list \<Rightarrow> int \<Rightarrow> char list option" where
  "memcpy dst off src n =
     (if 0 \<le> n \<and> n \<le> int (length src) \<and> 0 \<le> off \<and> off + n \<le> int (length dst)
      then Some (take (nat off) dst @ take (nat n) src @ drop (nat (off + n)) dst)
      else None)"

definition NUL :: char where
  "NUL = CHR 0x00"

subsection \<open>The prefix stack\<close>

text \<open>\<open>enum { MAX_PREFIXES = 16 }\<close>, \<open>char prefix[256]\<close>.\<close>

definition MAX_PREFIXES :: int where
  "MAX_PREFIXES = 16"

definition PREFIX_SIZE :: int where
  "PREFIX_SIZE = 256"

record prefix_type =
  prefix :: "char list"
  pos :: int
  stack :: "int list"
  stack_pos :: int

definition prefix_init :: "prefix_type \<Rightarrow> prefix_type option" where
  "prefix_init p =
     (case store (prefix p) 0 NUL of
        None \<Rightarrow> None
      | Some buf \<Rightarrow> Some (p\<lparr>pos := 0, stack_pos := 0, prefix := buf\<rparr>))"

text \<open>
  \<open>len + p->pos >= sizeof(p->prefix)\<close> compares as \<open>size_t\<close>, so a negative sum
  counts as too long as well. \<open>p->stack_pos++\<close> at \<open>INT_MAX\<close> is undefined.
\<close>

definition prefix_push :: "prefix_type \<Rightarrow> char list \<Rightarrow> int \<Rightarrow> prefix_type option" where
  "prefix_push p text len =
     (case
        (if stack_pos p < MAX_PREFIXES then
           (case store (stack p) (stack_pos p) (pos p) of
              None \<Rightarrow> None
            | Some st \<Rightarrow>
                (let len' = (if len + pos p < 0 \<or> PREFIX_SIZE \<le> len + pos p
                             then (PREFIX_SIZE - 1) - pos p else len)
                 in case memcpy (prefix p) (pos p) text len' of
                      None \<Rightarrow> None
                    | Some buf \<Rightarrow>
                        (case store buf (pos p + len') NUL of
                           None \<Rightarrow> None
                         | Some buf' \<Rightarrow>
                             Some (p\<lparr>stack := st, prefix := buf', pos := pos p + len'\<rparr>))))
         else Some p)
      of None \<Rightarrow> None
       | Some q \<Rightarrow>
           if stack_pos q < INT_MAX then Some (q\<lparr>stack_pos := stack_pos q + 1\<rparr>) else None)"

text \<open>
  \<open>prefix_pop\<close>: below depth zero the depth is clamped and the length forced to zero
  (the error is only logged). \<open>p->stack_pos--\<close> at \<open>INT_MIN\<close> is undefined.
\<close>

definition prefix_pop :: "prefix_type \<Rightarrow> prefix_type option" where
  "prefix_pop p =
     (if stack_pos p \<le> INT_MIN then None
      else
        (let sp = stack_pos p - 1 in
         case
           (if sp < 0 then Some (p\<lparr>stack_pos := 0, pos := 0\<rparr>)
            else if sp < MAX_PREFIXES then
              (if sp < int (length (stack p))
               then Some (p\<lparr>stack_pos := sp, pos := stack p ! nat sp\<rparr>) else None)
            else Some (p\<lparr>stack_pos := sp\<rparr>))
         of None \<Rightarrow> None
          | Some q \<Rightarrow>
              (case store (prefix q) (pos q) NUL of
                 None \<Rightarrow> None
               | Some buf \<Rightarrow> Some (q\<lparr>prefix := buf\<rparr>))))"

definition prefix_pop_all :: "prefix_type \<Rightarrow> prefix_type option" where
  "prefix_pop_all p =
     (case store (prefix p) 0 NUL of
        None \<Rightarrow> None
      | Some buf \<Rightarrow> Some (p\<lparr>stack_pos := 0, pos := 0, prefix := buf\<rparr>))"

text \<open>
  The prefix as the writers see it: \<open>flushdump\<close> emits the first \<open>pos\<close> bytes of the
  buffer; as a C string it ends at the first NUL.
\<close>

definition prefix_text :: "prefix_type \<Rightarrow> char list" where
  "prefix_text p = take (nat (pos p)) (prefix p)"

definition prefix_cstr :: "prefix_type \<Rightarrow> char list" where
  "prefix_cstr p = takeWhile (\<lambda>c. c \<noteq> NUL) (prefix p)"

text \<open>Call sequences: a list of pushes, then a number of pops.\<close>

fun pushes :: "prefix_type \<Rightarrow> (char list \<times> int) list \<Rightarrow> prefix_type option" where
  "pushes p [] = Some p"
| "pushes p (a # as) =
     (case prefix_push p (fst a) (snd a) of None \<Rightarrow> None | Some q \<Rightarrow> pushes q as)"

fun pops :: "nat \<Rightarrow> prefix_type \<Rightarrow> prefix_type option" where
  "pops 0 p = Some p"
| "pops (Suc k) p = (case prefix_pop p of None \<Rightarrow> None | Some q \<Rightarrow> pops k q)"

text \<open>
  The struct as allocated (array sizes), and the state invariant of the stack: the
  length is inside the buffer and marks a NUL, the depth is not negative, and every
  stored frame is a position inside the buffer.
\<close>

definition prefix_alloc :: "prefix_type \<Rightarrow> bool" where
  "prefix_alloc p \<longleftrightarrow> int (length (prefix p)) = PREFIX_SIZE \<and> int (length (stack p)) = MAX_PREFIXES"

definition frames :: "prefix_type \<Rightarrow> int list" where
  "frames p = take (nat (stack_pos p)) (stack p)"

definition prefix_inv :: "prefix_type \<Rightarrow> bool" where
  "prefix_inv p \<longleftrightarrow>
     prefix_alloc p \<and> 0 \<le> pos p \<and> pos p < PREFIX_SIZE \<and> 0 \<le> stack_pos p \<and>
     prefix p ! nat (pos p) = NUL \<and>
     list_all (\<lambda>x. 0 \<le> x \<and> x < PREFIX_SIZE) (frames p)"

text \<open>A text argument as the callers pass it: \<open>len\<close> bytes that exist.\<close>

definition text_ok :: "char list \<times> int \<Rightarrow> bool" where
  "text_ok a \<longleftrightarrow> 0 \<le> snd a \<and> snd a \<le> int (length (fst a))"


text \<open>Example arguments: a nearly full prefix, a fresh one, and seventeen texts.\<close>

definition ex_prefix :: prefix_type where
  "ex_prefix = \<lparr>prefix = replicate 250 (CHR ''x'') @ replicate 6 NUL, pos = 250,
                 stack = replicate 16 0, stack_pos = 1\<rparr>"

definition ex_zero :: prefix_type where
  "ex_zero = \<lparr>prefix = replicate 256 NUL, pos = 0, stack = replicate 16 0, stack_pos = 0\<rparr>"

definition ex_texts :: "(char list \<times> int) list" where
  "ex_texts = map (\<lambda>i. (''req '', 4)) [0..<17]"

subsection \<open>Integer lists and ranges of a rule\<close>

text \<open>
  \<open>struct list\<close>: \<open>num\<close> used entries of \<open>int list[LIST_MAX]\<close> and the polarity flag
  \<open>inv\<close>, which \<open>add_list\<close> only ever sets to \<open>0\<close> or \<open>~0\<close>.
\<close>

definition LIST_MAX :: nat where
  "LIST_MAX = 32"

record struct_list =
  list_num :: nat
  list_inv :: u32
  list_list :: "int list"

definition zero_list :: struct_list where
  "zero_list = \<lparr>list_num = 0, list_inv = 0, list_list = replicate 32 0\<rparr>"

text \<open>The entries in use.\<close>

definition entries :: "struct_list \<Rightarrow> int list" where
  "entries l = take (list_num l) (list_list l)"

definition list_ok :: "struct_list \<Rightarrow> bool" where
  "list_ok l \<longleftrightarrow> length (list_list l) = LIST_MAX \<and> list_num l \<le> LIST_MAX"

text \<open>\<open>inv = inv ? ~0 : 0\<close>.\<close>

definition polarity :: "u32 \<Rightarrow> u32" where
  "polarity inv0 = (if inv0 \<noteq> 0 then NOT 0 else 0)"

text \<open>The result is the pair of the list as left behind and the return code.\<close>

definition add_list :: "struct_list \<Rightarrow> int \<Rightarrow> u32 \<Rightarrow> struct_list \<times> int" where
  "add_list l v inv0 =
     (let inv1 = polarity inv0;
          l1 = (if inv1 \<noteq> list_inv l then l\<lparr>list_num := 0, list_inv := inv1\<rparr> else l)
      in if v \<in> set (take (list_num l1) (list_list l1)) then (l1, 0)
         else if LIST_MAX \<le> list_num l1 then (l1, - 1)
         else (l1\<lparr>list_list := (list_list l1)[list_num l1 := v],
                  list_num := list_num l1 + 1\<rparr>, 0))"

text \<open>
  \<open>check_list\<close> returns \<open>!list->inv\<close> on a hit and \<open>list->inv\<close> (converted to
  \<open>int\<close>) otherwise; callers test the result against zero.
\<close>

definition check_list :: "struct_list \<Rightarrow> int \<Rightarrow> int" where
  "check_list l v =
     (if list_num l = 0 then 1
      else if v \<in> set (take (min (list_num l) LIST_MAX) (list_list l))
           then (if list_inv l = 0 then 1 else 0)
           else sint (list_inv l))"

text \<open>A run of \<open>add_list\<close> calls on one list, each with its value and flag.\<close>

fun add_lists :: "struct_list \<Rightarrow> (int \<times> u32) list \<Rightarrow> struct_list" where
  "add_lists l [] = l"
| "add_lists l (x # xs) = add_lists (fst (add_list l (fst x) (snd x))) xs"

definition ex_full_list :: struct_list where
  "ex_full_list = \<lparr>list_num = 32, list_inv = 0, list_list = [0..31]\<rparr>"

record struct_range =
  range_from :: int
  range_to :: int

text \<open>
  \<open>struct dblrange\<close> and the SQL cost are C doubles. They are only compared; the model
  uses reals (no NaN, no rounding: the bounds stored are integers).
\<close>

record struct_dblrange =
  dbl_from :: real
  dbl_to :: real

definition init_range :: struct_range where
  "init_range = \<lparr>range_from = - 1, range_to = - 1\<rparr>"

definition init_dblrange :: struct_dblrange where
  "init_dblrange = \<lparr>dbl_from = - 1, dbl_to = - 1\<rparr>"

definition inrange :: "struct_range \<Rightarrow> int \<Rightarrow> int" where
  "inrange r v =
     (if 0 \<le> range_from r \<and> v < range_from r then 0
      else if 0 \<le> range_to r \<and> range_to r < v then 0
      else 1)"

definition indblrange :: "struct_dblrange \<Rightarrow> real \<Rightarrow> int" where
  "indblrange r v =
     (if 0 \<le> dbl_from r \<and> v < dbl_from r then 0
      else if 0 \<le> dbl_to r \<and> dbl_to r < v then 0
      else 1)"

subsection \<open>Rules and the master settings\<close>

text \<open>
  \<open>struct logrule\<close>. The output of a rule is identified by its file name (the registry
  keeps one \<open>struct output\<close> per name). \<open>tablename\<close> and \<open>stmt\<close> are C strings;
  \<open>s[0] == 0\<close> is the empty string.
\<close>

record logrule =
  rule_name :: "char list"
  rule_active :: int
  rule_count :: int
  rule_duration :: struct_range
  rule_retries :: struct_range
  rule_vreplays :: struct_range
  rule_sql_cost :: struct_dblrange
  rule_sql_rows :: struct_range
  rule_rc_list :: struct_list
  rule_opcode_list :: struct_list
  rule_tablename :: "char list"
  rule_stmt :: "char list"
  rule_event_mask :: u32
  rule_out :: "char list"

text \<open>
  \<open>new_rule_ll\<close>: \<open>calloc\<close> zeroes the rule, then four of the five ranges are reset to
  unbounded; \<open>vreplays\<close> keeps the zeroes.
\<close>

definition new_rule_ll :: "char list \<Rightarrow> char list \<Rightarrow> logrule" where
  "new_rule_ll nm default_out =
     \<lparr>rule_name = take 31 nm, rule_active = 0, rule_count = 0,
      rule_duration = init_range, rule_retries = init_range,
      rule_vreplays = \<lparr>range_from = 0, range_to = 0\<rparr>,
      rule_sql_cost = init_dblrange, rule_sql_rows = init_range,
      rule_rc_list = zero_list, rule_opcode_list = zero_list,
      rule_tablename = [], rule_stmt = [], rule_event_mask = 0, rule_out = default_out\<rparr>"

text \<open>\<open>enum { MAXSTMT = 31, NUMSTMTS = 16 }\<close> and the lockless master variables.\<close>

definition MAXSTMT :: nat where
  "MAXSTMT = 31"

definition NUMSTMTS :: int where
  "NUMSTMTS = 16"

record master =
  master_event_mask :: u32
  master_all_requests :: int
  master_opcode_list :: struct_list
  master_opcode_inv_list :: struct_list
  master_table_rules :: int
  master_stmts :: "char list list"
  master_num_stmts :: int

text \<open>
  \<open>scanrules_ll\<close>. The locals \<open>table_rules\<close>, \<open>event_mask\<close> and \<open>log_all_reqs\<close>
  travel with the master variables through the loop over the rules.
\<close>

record scan = master +
  table_rules :: int
  scan_event_mask :: u32
  log_all_reqs :: int

definition scan_begin :: "master \<Rightarrow> scan" where
  "scan_begin m =
     \<lparr>master_event_mask = master_event_mask m, master_all_requests = 1,
      master_opcode_list = zero_list, master_opcode_inv_list = zero_list,
      master_table_rules = master_table_rules m,
      master_stmts = replicate 16 [], master_num_stmts = 0,
      table_rules = 0, scan_event_mask = 0, log_all_reqs = 0\<rparr>"

definition scan_opcode :: "u32 \<Rightarrow> int \<Rightarrow> scan \<Rightarrow> scan" where
  "scan_opcode inv0 v s =
     (let (s1, rc) =
            (if inv0 \<noteq> 0
             then (let (l, rc) = add_list (master_opcode_inv_list s) v 1
                   in (s\<lparr>master_opcode_inv_list := l\<rparr>, rc))
             else (let (l, rc) = add_list (master_opcode_list s) v 0
                   in (s\<lparr>master_opcode_list := l\<rparr>, rc)))
      in if rc \<noteq> 0 then s1\<lparr>log_all_reqs := 1\<rparr> else s1)"

definition scan_rule :: "logrule \<Rightarrow> scan \<Rightarrow> scan" where
  "scan_rule r s =
     (if rule_active r = 0 then s
      else
        (let s1 = (if list_num (rule_opcode_list r) = 0 \<and> rule_stmt r = []
                   then s\<lparr>log_all_reqs := 1\<rparr> else s);
             s2 = fold (scan_opcode (list_inv (rule_opcode_list r)))
                       (entries (rule_opcode_list r)) s1;
             s3 = (if rule_tablename r \<noteq> [] then s2\<lparr>table_rules := 1\<rparr> else s2);
             s4 = (if rule_stmt r \<noteq> [] then
                     (if master_num_stmts s3 = NUMSTMTS then s3\<lparr>log_all_reqs := 1\<rparr>
                      else s3\<lparr>master_stmts :=
                                 (master_stmts s3)[nat (master_num_stmts s3) :=
                                    take MAXSTMT (rule_stmt r)],
                               master_num_stmts := master_num_stmts s3 + 1\<rparr>)
                   else s3)
         in s4\<lparr>scan_event_mask := scan_event_mask s4 OR rule_event_mask r\<rparr>))"

definition scan_end :: "scan \<Rightarrow> master" where
  "scan_end s =
     \<lparr>master_event_mask = scan_event_mask s, master_all_requests = log_all_reqs s,
      master_opcode_list = master_opcode_list s,
      master_opcode_inv_list = master_opcode_inv_list s,
      master_table_rules = table_rules s,
      master_stmts = master_stmts s, master_num_stmts = master_num_stmts s\<rparr>"

definition scanrules_ll :: "master \<Rightarrow> logrule list \<Rightarrow> master" where
  "scanrules_ll m rules = scan_end (fold scan_rule rules (scan_begin m))"

text \<open>
  What the scan keeps true while it runs, \<open>seen\<close> being the rules already visited:
  the two master lists are well-formed and of one polarity each, the statement count
  stays within the table, and as long as \<open>log_all_reqs\<close> is not set the master lists
  hold every opcode seen and the table every statement seen.
\<close>

definition scan_lists_ok :: "scan \<Rightarrow> bool" where
  "scan_lists_ok s \<longleftrightarrow>
     list_ok (master_opcode_list s) \<and> list_inv (master_opcode_list s) = 0 \<and>
     list_ok (master_opcode_inv_list s) \<and>
     (list_inv (master_opcode_inv_list s) = NOT 0 \<or> list_num (master_opcode_inv_list s) = 0)"

text \<open>What the rule set asks of the scan, in the words of the rules.\<close>

definition no_early_criteria :: "logrule \<Rightarrow> bool" where
  "no_early_criteria r \<longleftrightarrow>
     rule_active r \<noteq> 0 \<and> list_num (rule_opcode_list r) = 0 \<and> rule_stmt r = []"

definition opcodes_of :: "bool \<Rightarrow> logrule list \<Rightarrow> int list" where
  "opcodes_of inverted rules =
     concat (map (\<lambda>r. entries (rule_opcode_list r))
       (filter (\<lambda>r. rule_active r \<noteq> 0 \<and> (list_inv (rule_opcode_list r) \<noteq> 0) = inverted) rules))"

definition stmts_of :: "logrule list \<Rightarrow> char list list" where
  "stmts_of rules = map rule_stmt (filter (\<lambda>r. rule_active r \<noteq> 0 \<and> rule_stmt r \<noteq> []) rules)"

definition scan_inv :: "logrule list \<Rightarrow> scan \<Rightarrow> bool" where
  "scan_inv seen s \<longleftrightarrow>
     scan_lists_ok s \<and> 0 \<le> master_num_stmts s \<and> master_num_stmts s \<le> NUMSTMTS \<and>
     (log_all_reqs s = 1 \<or>
      (set (opcodes_of False seen) \<subseteq> set (entries (master_opcode_list s)) \<and>
       set (opcodes_of True seen) \<subseteq> set (entries (master_opcode_inv_list s)) \<and>
       master_num_stmts s = int (length (stmts_of seen)) \<and>
       \<not> list_ex no_early_criteria seen))"

text \<open>Seventeen active rules, each with its own statement text.\<close>

definition ex_stmt_rule :: "nat \<Rightarrow> logrule" where
  "ex_stmt_rule i =
     (new_rule_ll (replicate (Suc i) (CHR ''1'')) ''<stdout>'')
       \<lparr>rule_active := 1, rule_stmt := ''select '' @ replicate (Suc i) (CHR ''a'')\<rparr>"

definition ex_stmt_rules :: "logrule list" where
  "ex_stmt_rules = map ex_stmt_rule [0..<17]"


subsection \<open>The request logger\<close>

text \<open>
  The event classes and opcodes used here are macros of \<open>comdb2.h\<close>, which is not part
  of this file; they are parameters of the model.
\<close>

record reql_consts =
  REQL_INFO :: u32
  REQL_TRACE :: u32
  OP_SQL :: int
  OP_DEBUG :: int

text \<open>The fields of \<open>struct ireq\<close> that the logger reads or writes.\<close>

record ireq =
  iq_debug :: int
  iq_retries :: int
  iq_opcode :: int
  iq_nowms :: int
  iq_is_fromsocket :: int

datatype logevent =
  EVENT_PUSH_PREFIX int "char list"
| EVENT_POP_PREFIX
| EVENT_POP_PREFIX_ALL
| EVENT_PRINT u32 int "char list"

text \<open>
  \<open>struct reqlogger\<close>. \<open>lprefix\<close> is the field \<open>prefix\<close>; \<open>iq\<close> and \<open>stmt\<close> are
  pointers (\<open>None\<close> is \<open>NULL\<close>); \<open>tables\<close> and \<open>events\<close> are the linked lists.
  \<open>written\<close> is not a field of the struct: it collects what \<open>flushdump\<close> hands to
  the writers. A file output gets the bytes of one \<open>writev\<close>. The default output gets
  no lengths: each buffer is passed to \<open>logmsg\<close> as its format string, so what is
  printed runs from the start of the buffer to the next NUL, wherever that lies, and a
  percent sign in it is a directive. For the default output the model records the
  buffers as they are handed over (all bytes of the array) and says nothing about
  what \<open>logmsg\<close> prints of them.
\<close>

datatype out_line =
  WRITEV "char list" "char list"
| LOGMSG "char list list"

record reqlogger =
  origin :: "char list"
  reqflags :: u32
  in_request :: int
  request_type :: "char list"
  event_mask :: u32
  dump_mask :: u32
  mask :: u32
  startms :: int
  lprefix :: prefix_type
  dumpline :: "char list"
  dumplinepos :: int
  tracking_tables :: int
  tables :: "(char list \<times> int) list"
  opcode :: int
  iq :: "ireq option"
  events :: "logevent list"
  stmt :: "char list option"
  sqlrows :: int
  sqlcost :: real
  rc :: int
  durationms :: int
  vreplays :: int
  queuetimems :: int
  written :: "out_line list"

definition DUMPLINE_SIZE :: int where
  "DUMPLINE_SIZE = 1024"

definition default_out :: "char list" where
  "default_out = ''<stdout>''"

text \<open>
  \<open>reqlog_reset_logger\<close>: \<open>bzero\<close> from \<open>start_transient\<close> on; only the arena and
  \<open>origin\<close> survive.
\<close>

definition reqlog_reset_logger :: "reqlogger \<Rightarrow> reqlogger" where
  "reqlog_reset_logger l =
     \<lparr>origin = origin l, reqflags = 0, in_request = 0, request_type = [],
      event_mask = 0, dump_mask = 0, mask = 0, startms = 0,
      lprefix = \<lparr>prefix = replicate 256 NUL, pos = 0, stack = replicate 16 0, stack_pos = 0\<rparr>,
      dumpline = replicate 1024 NUL, dumplinepos = 0, tracking_tables = 0, tables = [],
      opcode = 0, iq = None, events = [], stmt = None, sqlrows = 0, sqlcost = 0, rc = 0,
      durationms = 0, vreplays = 0, queuetimems = 0, written = written l\<rparr>"

text \<open>\<open>reqlog_alloc\<close>: \<open>calloc\<close> gives the all-zero logger.\<close>

definition reqlog_alloc :: reqlogger where
  "reqlog_alloc =
     \<lparr>origin = [], reqflags = 0, in_request = 0, request_type = [],
      event_mask = 0, dump_mask = 0, mask = 0, startms = 0,
      lprefix = \<lparr>prefix = replicate 256 NUL, pos = 0, stack = replicate 16 0, stack_pos = 0\<rparr>,
      dumpline = replicate 1024 NUL, dumplinepos = 0, tracking_tables = 0, tables = [],
      opcode = 0, iq = None, events = [], stmt = None, sqlrows = 0, sqlcost = 0, rc = 0,
      durationms = 0, vreplays = 0, queuetimems = 0, written = []\<rparr>"

definition newline :: char where
  "newline = CHR 0x0A"

text \<open>
  \<open>flushdump\<close>: a non-empty line goes out and the line position returns to zero; an
  empty line is not written. The pieces are the prefix (when its length is
  positive), the line, and a newline. With \<open>out == NULL\<close> or the default output
  itself, each piece goes to \<open>logmsg\<close>; otherwise one \<open>writev\<close> writes the first
  \<open>pos\<close> bytes of the prefix and the first \<open>dumplinepos\<close> bytes of the line, and
  these lengths must lie inside the two buffers. The time prefix of a file output
  and the duration text added when \<open>out == NULL\<close> depend on the clock and are left
  out of the record.
\<close>

definition flushdump :: "reqlogger \<Rightarrow> char list option \<Rightarrow> reqlogger option" where
  "flushdump l out =
     (if 0 < dumplinepos l then
        (let f = (case out of None \<Rightarrow> default_out | Some f \<Rightarrow> f)
         in if f = default_out then
              Some (l\<lparr>written := written l @
                        [LOGMSG ((if 0 < pos (lprefix l) then [prefix (lprefix l)] else []) @
                                 [dumpline l, [newline]])],
                      dumplinepos := 0\<rparr>)
            else if int (length (dumpline l)) < dumplinepos l \<or>
                    int (length (prefix (lprefix l))) < pos (lprefix l) then None
            else
              Some (l\<lparr>written := written l @
                        [WRITEV f
                           ((if 0 < pos (lprefix l) then prefix_text (lprefix l) else []) @
                            take (nat (dumplinepos l)) (dumpline l) @ [newline])],
                      dumplinepos := 0\<rparr>))
      else Some l)"

text \<open>
  The loop of \<open>dump\<close> over the characters still to be written. On a full buffer it
  flushes and looks at the same character again (\<open>continue\<close> without \<open>ii++\<close>).
\<close>

function dump_loop :: "reqlogger \<Rightarrow> char list option \<Rightarrow> char list \<Rightarrow> reqlogger option" where
  "dump_loop l out [] = Some l"
| "dump_loop l out (c # cs) =
     (if DUMPLINE_SIZE \<le> dumplinepos l then
        (case flushdump l out of None \<Rightarrow> None | Some l' \<Rightarrow> dump_loop l' out (c # cs))
      else if c = newline then
        (case flushdump l out of None \<Rightarrow> None | Some l' \<Rightarrow> dump_loop l' out cs)
      else
        (case store (dumpline l) (dumplinepos l) c of
           None \<Rightarrow> None
         | Some d \<Rightarrow> dump_loop (l\<lparr>dumpline := d, dumplinepos := dumplinepos l + 1\<rparr>) out cs))"
  by pat_completeness auto
termination
  by (relation "measures [\<lambda>(l, out, s). length s,
                          \<lambda>(l, out, s). if DUMPLINE_SIZE \<le> dumplinepos l then 1 else 0]")
     (auto simp: flushdump_def DUMPLINE_SIZE_def Let_def split: if_splits)

text \<open>\<open>dump(logger, out, s, len)\<close> reads \<open>len\<close> characters of \<open>s\<close>.\<close>

definition dump :: "reqlogger \<Rightarrow> char list option \<Rightarrow> char list \<Rightarrow> int \<Rightarrow> reqlogger option" where
  "dump l out s len =
     (if int (length s) < len then None else dump_loop l out (take (nat len) s))"


text \<open>\<open>strstr(h, n) != NULL\<close>: \<open>n\<close> occurs in \<open>h\<close>.\<close>

fun starts_with :: "char list \<Rightarrow> char list \<Rightarrow> bool" where
  "starts_with h [] = True"
| "starts_with [] (n # ns) = False"
| "starts_with (c # h) (n # ns) = (c = n \<and> starts_with h ns)"

fun strstr :: "char list \<Rightarrow> char list \<Rightarrow> bool" where
  "strstr [] n = (n = [])"
| "strstr (c # h) n = (starts_with (c # h) n \<or> strstr h n)"

text \<open>\<open>strcasecmp(a, b) == 0\<close> (ASCII letters).\<close>

definition tolower :: "char \<Rightarrow> char" where
  "tolower c =
     (let n = (of_char c :: nat) in if 65 \<le> n \<and> n \<le> 90 then char_of (n + 32) else c)"

definition strcasecmp0 :: "char list \<Rightarrow> char list \<Rightarrow> bool" where
  "strcasecmp0 a b \<longleftrightarrow> map tolower a = map tolower b"

text \<open>The two globals of the file that the logger functions read.\<close>

record globals =
  reqltruncate :: int
  sqldbgflag :: int

text \<open>
  \<open>reqlog_start_request\<close>: decide what to gather for this request, then set
  \<open>mask\<close> from the two masks.
\<close>

definition gather :: "master \<Rightarrow> reqlogger \<Rightarrow> bool" where
  "gather m l \<longleftrightarrow>
     (if master_all_requests m \<noteq> 0 then True
      else if 0 < list_num (master_opcode_list m) \<and>
              check_list (master_opcode_list m) (opcode l) \<noteq> 0 then True
      else if 0 < list_num (master_opcode_inv_list m) \<and>
              check_list (master_opcode_inv_list m) (opcode l) \<noteq> 0 then True
      else (case stmt l of
              None \<Rightarrow> False
            | Some s \<Rightarrow>
                0 < master_num_stmts m \<and>
                list_ex (strstr s)
                  (take (nat (min (master_num_stmts m) NUMSTMTS)) (master_stmts m))))"

definition reqlog_start_request ::
  "reql_consts \<Rightarrow> globals \<Rightarrow> master \<Rightarrow> reqlogger \<Rightarrow> reqlogger" where
  "reqlog_start_request c g m l =
     (let l1 = l\<lparr>tracking_tables := master_table_rules m\<rparr>;
          l2 = (case iq l1 of
                  None \<Rightarrow> l1
                | Some q \<Rightarrow> if iq_debug q \<noteq> 0 then l1\<lparr>dump_mask := REQL_TRACE c\<rparr> else l1);
          l3 = (if opcode l2 = OP_SQL c \<and> sqldbgflag g \<noteq> 0
                then l2\<lparr>dump_mask := REQL_TRACE c\<rparr> else l2);
          l4 = l3\<lparr>event_mask := event_mask l3 OR REQL_INFO c\<rparr>;
          l5 = (if gather m l4
                then l4\<lparr>event_mask := event_mask l4 OR master_event_mask m,
                        iq := map_option (\<lambda>q. q\<lparr>iq_debug := 1\<rparr>) (iq l4)\<rparr>
                else l4)
      in l5\<lparr>mask := event_mask l5 OR dump_mask l5, in_request := 1\<rparr>)"

definition reqlog_new_request ::
  "reql_consts \<Rightarrow> globals \<Rightarrow> master \<Rightarrow> ireq \<Rightarrow> reqlogger \<Rightarrow> reqlogger" where
  "reqlog_new_request c g m q l =
     (let l1 = reqlog_reset_logger l;
          l2 = l1\<lparr>startms := iq_nowms q, iq := Some q, opcode := iq_opcode q,
                  request_type := (if iq_is_fromsocket q \<noteq> 0 then ''socket/fstsnd request''
                                   else ''regular request'')\<rparr>
      in reqlog_start_request c g m l2)"

text \<open>
  The logging entry points. An arena allocation can fail; whether it does is an
  argument (\<open>str_ok\<close> for the copy of the text, \<open>ev_ok\<close> for the event node). The
  formatted text is an argument as well: \<open>vsnprintf\<close> into \<open>char buf[256]\<close> keeps at
  most 255 characters of it and returns its full length. The result is the logger
  and the return code.
\<close>

definition reqlog_append_event :: "reqlogger \<Rightarrow> logevent \<Rightarrow> reqlogger" where
  "reqlog_append_event l e = l\<lparr>events := events l @ [e]\<rparr>"

definition reqlog_logl ::
  "reqlogger \<Rightarrow> u32 \<Rightarrow> char list \<Rightarrow> bool \<Rightarrow> (reqlogger \<times> int) option" where
  "reqlog_logl l event_flag s ev_ok =
     (if mask l AND event_flag \<noteq> 0 then
        (if event_mask l AND event_flag \<noteq> 0 \<and> \<not> ev_ok then Some (l, - 1)
         else
           (let l1 = (if event_mask l AND event_flag \<noteq> 0
                      then reqlog_append_event l (EVENT_PRINT event_flag (- 1) s) else l)
            in if dump_mask l1 AND event_flag \<noteq> 0
               then map_option (\<lambda>l2. (l2, 0)) (dump l1 None s (int (length s)))
               else Some (l1, 0)))
      else Some (l, 0))"

definition reqlog_logll ::
  "reqlogger \<Rightarrow> u32 \<Rightarrow> char list \<Rightarrow> int \<Rightarrow> bool \<Rightarrow> (reqlogger \<times> int) option" where
  "reqlog_logll l event_flag s len ev_ok =
     (if mask l AND event_flag \<noteq> 0 then
        (if event_mask l AND event_flag \<noteq> 0 \<and> \<not> ev_ok then Some (l, - 1)
         else
           (let l1 = (if event_mask l AND event_flag \<noteq> 0
                      then reqlog_append_event l (EVENT_PRINT event_flag len s) else l)
            in if dump_mask l1 AND event_flag \<noteq> 0
               then map_option (\<lambda>l2. (l2, 0)) (dump l1 None s len)
               else Some (l1, 0)))
      else Some (l, 0))"

definition reqlog_logv_int ::
  "globals \<Rightarrow> reqlogger \<Rightarrow> u32 \<Rightarrow> char list \<Rightarrow> bool \<Rightarrow> bool \<Rightarrow> (reqlogger \<times> int) option" where
  "reqlog_logv_int g l event_flag fmt str_ok ev_ok =
     (let big = (256 \<le> length fmt);
          onheap = (big \<and> reqltruncate g = 0);
          len = (if big \<and> \<not> onheap then 255 else int (length fmt));
          text = (if onheap then fmt else take 255 fmt)
      in if onheap \<and> \<not> str_ok then Some (l, - 1)
         else
           (case (if dump_mask l AND event_flag \<noteq> 0 then dump l None text len else Some l) of
              None \<Rightarrow> None
            | Some l1 \<Rightarrow>
                if event_mask l1 AND event_flag \<noteq> 0 then
                  (if \<not> onheap \<and> \<not> str_ok then Some (l1, - 1)
                   else if \<not> ev_ok then Some (l1, - 1)
                   else Some (reqlog_append_event l1 (EVENT_PRINT event_flag len text), 0))
                else Some (l1, 0)))"

definition reqlog_logf ::
  "globals \<Rightarrow> reqlogger \<Rightarrow> u32 \<Rightarrow> char list \<Rightarrow> bool \<Rightarrow> bool \<Rightarrow> (reqlogger \<times> int) option" where
  "reqlog_logf g l event_flag fmt str_ok ev_ok =
     (if mask l AND event_flag \<noteq> 0 then reqlog_logv_int g l event_flag fmt str_ok ev_ok
      else Some (l, 0))"

definition reqlog_pushprefixv ::
  "globals \<Rightarrow> reqlogger \<Rightarrow> char list \<Rightarrow> bool \<Rightarrow> bool \<Rightarrow> (reqlogger \<times> int) option" where
  "reqlog_pushprefixv g l fmt str_ok ev_ok =
     (let big = (256 \<le> length fmt);
          onheap = (big \<and> reqltruncate g = 0);
          len = (if big \<and> \<not> onheap then 255 else int (length fmt));
          text = (if onheap then fmt else take 255 fmt)
      in if onheap \<and> \<not> str_ok then Some (l, - 1)
         else
           (case (if dump_mask l \<noteq> 0 then
                    (case flushdump l None of
                       None \<Rightarrow> None
                     | Some l0 \<Rightarrow>
                         map_option (\<lambda>p. l0\<lparr>lprefix := p\<rparr>) (prefix_push (lprefix l0) text len))
                  else Some l) of
              None \<Rightarrow> None
            | Some l1 \<Rightarrow>
                if event_mask l1 \<noteq> 0 then
                  (if \<not> onheap \<and> \<not> str_ok then Some (l1, - 1)
                   else if \<not> ev_ok then Some (l1, - 1)
                   else Some (reqlog_append_event l1 (EVENT_PUSH_PREFIX len text), 0))
                else Some (l1, 0)))"

definition reqlog_popprefix :: "reqlogger \<Rightarrow> bool \<Rightarrow> (reqlogger \<times> int) option" where
  "reqlog_popprefix l ev_ok =
     (case (if dump_mask l \<noteq> 0 then
              (case flushdump l None of
                 None \<Rightarrow> None
               | Some l0 \<Rightarrow> map_option (\<lambda>p. l0\<lparr>lprefix := p\<rparr>) (prefix_pop (lprefix l0)))
            else Some l) of
        None \<Rightarrow> None
      | Some l1 \<Rightarrow>
          if event_mask l1 \<noteq> 0 then
            (if \<not> ev_ok then Some (l1, - 1)
             else Some (reqlog_append_event l1 EVENT_POP_PREFIX, 0))
          else Some (l1, 0))"

definition reqlog_popallprefixes :: "reqlogger \<Rightarrow> bool \<Rightarrow> (reqlogger \<times> int) option" where
  "reqlog_popallprefixes l ev_ok =
     (case (if dump_mask l \<noteq> 0 then
              (case flushdump l None of
                 None \<Rightarrow> None
               | Some l0 \<Rightarrow> map_option (\<lambda>p. l0\<lparr>lprefix := p\<rparr>) (prefix_pop_all (lprefix l0)))
            else Some l) of
        None \<Rightarrow> None
      | Some l1 \<Rightarrow>
          if event_mask l1 \<noteq> 0 then
            (if \<not> ev_ok then Some (l1, - 1)
             else Some (reqlog_append_event l1 EVENT_POP_PREFIX_ALL, 0))
          else Some (l1, 0))"

text \<open>\<open>reqlog_usetable\<close>: count the table, or put a new entry at the head of the list.\<close>

fun bump_table :: "char list \<Rightarrow> (char list \<times> int) list \<Rightarrow> (char list \<times> int) list option" where
  "bump_table nm [] = None"
| "bump_table nm (t # ts) =
     (if strcasecmp0 (fst t) nm then Some ((fst t, snd t + 1) # ts)
      else map_option (\<lambda>ts'. t # ts') (bump_table nm ts))"

definition reqlog_usetable :: "reqlogger \<Rightarrow> char list \<Rightarrow> bool \<Rightarrow> reqlogger" where
  "reqlog_usetable l tablename tab_ok =
     (if tracking_tables l \<noteq> 0 then
        (case bump_table tablename (tables l) of
           Some ts \<Rightarrow> l\<lparr>tables := ts\<rparr>
         | None \<Rightarrow> if tab_ok then l\<lparr>tables := (tablename, 1) # tables l\<rparr> else l)
      else l)"

definition reqlog_setflag :: "reqlogger \<Rightarrow> u32 \<Rightarrow> reqlogger" where
  "reqlog_setflag l flag = l\<lparr>reqflags := reqflags l OR flag\<rparr>"

definition reqlog_set_cost :: "reqlogger \<Rightarrow> real \<Rightarrow> reqlogger" where
  "reqlog_set_cost l cost = l\<lparr>sqlcost := cost\<rparr>"

definition reqlog_set_rows :: "reqlogger \<Rightarrow> int \<Rightarrow> reqlogger" where
  "reqlog_set_rows l rows = l\<lparr>sqlrows := rows\<rparr>"

definition reqlog_set_vreplays :: "reqlogger \<Rightarrow> int \<Rightarrow> reqlogger" where
  "reqlog_set_vreplays l replays = l\<lparr>vreplays := replays\<rparr>"

definition reqlog_set_queue_time :: "reqlogger \<Rightarrow> int \<Rightarrow> reqlogger" where
  "reqlog_set_queue_time l timems = l\<lparr>queuetimems := timems\<rparr>"

definition reqlog_set_origin :: "reqlogger \<Rightarrow> char list \<Rightarrow> reqlogger" where
  "reqlog_set_origin l fmt = l\<lparr>origin := take 126 fmt\<rparr>"

text \<open>
  \<open>reqlog_new_sql_request\<close>: \<open>now\<close> is \<open>time_epochms()\<close>, \<open>dup_ok\<close> tells whether
  \<open>arena_strdup\<close> succeeds.
\<close>

definition reqlog_new_sql_request ::
  "reql_consts \<Rightarrow> globals \<Rightarrow> master \<Rightarrow> char list option \<Rightarrow> int \<Rightarrow> bool \<Rightarrow> bool \<Rightarrow>
   reqlogger \<Rightarrow> reqlogger option" where
  "reqlog_new_sql_request c g m sqlstmt now dup_ok ev_ok l =
     (let l1 = reqlog_reset_logger l;
          l2 = l1\<lparr>request_type := ''sql request'', opcode := OP_SQL c\<rparr>;
          l3 = (case sqlstmt of
                  None \<Rightarrow> l2
                | Some s \<Rightarrow> l2\<lparr>stmt := (if dup_ok then Some s else None)\<rparr>);
          l4 = reqlog_start_request c g m (l3\<lparr>startms := now\<rparr>)
      in case stmt l4 of
           None \<Rightarrow> Some l4
         | Some s \<Rightarrow> map_option fst (reqlog_logl l4 (REQL_INFO c) s ev_ok))"

definition reqlog_diffstat_init :: "reql_consts \<Rightarrow> reqlogger \<Rightarrow> reqlogger" where
  "reqlog_diffstat_init c l =
     (let l1 = reqlog_reset_logger l;
          l2 = l1\<lparr>request_type := ''stat dump'', opcode := OP_DEBUG c\<rparr>;
          l3 = l2\<lparr>mask := REQL_INFO c\<rparr>
      in l3\<lparr>event_mask := REQL_INFO c\<rparr>)"

text \<open>
  The calls a thread makes on its logger while a request is in progress, as data,
  and their effect on the logger. Apart from these functions and the \<open>bzero\<close> of
  the reset, nothing in the file assigns \<open>event_mask\<close>, \<open>dump_mask\<close> or \<open>mask\<close>.
\<close>

datatype logger_call =
  Reset
| NewRequest ireq
| NewSqlRequest "char list option" int bool bool
| DiffstatInit
| PushPrefix "char list" bool bool
| PopPrefix bool
| PopAllPrefixes bool
| Logf u32 "char list" bool bool
| Logl u32 "char list" bool
| Logll u32 "char list" int bool
| UseTable "char list" bool
| SetFlag u32
| SetCost real
| SetRows int
| SetVreplays int
| SetQueueTime int
| SetOrigin "char list"

fun call :: "reql_consts \<Rightarrow> globals \<Rightarrow> master \<Rightarrow> reqlogger \<Rightarrow> logger_call \<Rightarrow> reqlogger option" where
  "call c g m l Reset = Some (reqlog_reset_logger l)"
| "call c g m l (NewRequest q) = Some (reqlog_new_request c g m q l)"
| "call c g m l (NewSqlRequest sqlstmt now dup_ok ev_ok) =
     reqlog_new_sql_request c g m sqlstmt now dup_ok ev_ok l"
| "call c g m l DiffstatInit = Some (reqlog_diffstat_init c l)"
| "call c g m l (PushPrefix fmt str_ok ev_ok) =
     map_option fst (reqlog_pushprefixv g l fmt str_ok ev_ok)"
| "call c g m l (PopPrefix ev_ok) = map_option fst (reqlog_popprefix l ev_ok)"
| "call c g m l (PopAllPrefixes ev_ok) = map_option fst (reqlog_popallprefixes l ev_ok)"
| "call c g m l (Logf event_flag fmt str_ok ev_ok) =
     map_option fst (reqlog_logf g l event_flag fmt str_ok ev_ok)"
| "call c g m l (Logl event_flag s ev_ok) = map_option fst (reqlog_logl l event_flag s ev_ok)"
| "call c g m l (Logll event_flag s len ev_ok) =
     map_option fst (reqlog_logll l event_flag s len ev_ok)"
| "call c g m l (UseTable tablename tab_ok) = Some (reqlog_usetable l tablename tab_ok)"
| "call c g m l (SetFlag flag) = Some (reqlog_setflag l flag)"
| "call c g m l (SetCost cost) = Some (reqlog_set_cost l cost)"
| "call c g m l (SetRows rows) = Some (reqlog_set_rows l rows)"
| "call c g m l (SetVreplays replays) = Some (reqlog_set_vreplays l replays)"
| "call c g m l (SetQueueTime timems) = Some (reqlog_set_queue_time l timems)"
| "call c g m l (SetOrigin fmt) = Some (reqlog_set_origin l fmt)"

fun calls :: "reql_consts \<Rightarrow> globals \<Rightarrow> master \<Rightarrow> reqlogger \<Rightarrow> logger_call list \<Rightarrow> reqlogger option" where
  "calls c g m l [] = Some l"
| "calls c g m l (x # xs) =
     (case call c g m l x of None \<Rightarrow> None | Some l' \<Rightarrow> calls c g m l' xs)"

text \<open>The invariant of claim C1, and the condition a call must meet to be a legal call.\<close>

definition mask_inv :: "reqlogger \<Rightarrow> bool" where
  "mask_inv l \<longleftrightarrow> mask l = event_mask l OR dump_mask l"


definition masks_kept :: "reqlogger \<Rightarrow> reqlogger \<Rightarrow> bool" where
  "masks_kept l l' \<longleftrightarrow>
     event_mask l' = event_mask l \<and> dump_mask l' = dump_mask l \<and> mask l' = mask l"

text \<open>
  What every call keeps true of the buffers, and what a call needs from its caller:
  a push needs room in the depth counter, a text needs the bytes it announces.
\<close>

definition logger_inv :: "reqlogger \<Rightarrow> bool" where
  "logger_inv l \<longleftrightarrow>
     prefix_inv (lprefix l) \<and> int (length (dumpline l)) = DUMPLINE_SIZE \<and>
     0 \<le> dumplinepos l \<and> dumplinepos l \<le> DUMPLINE_SIZE"

text \<open>The part of it that the dump line alone needs.\<close>

definition dump_inv :: "reqlogger \<Rightarrow> bool" where
  "dump_inv l \<longleftrightarrow>
     int (length (dumpline l)) = DUMPLINE_SIZE \<and> 0 \<le> dumplinepos l \<and>
     dumplinepos l \<le> DUMPLINE_SIZE \<and>
     pos (lprefix l) \<le> int (length (prefix (lprefix l)))"

fun call_ok :: "reqlogger \<Rightarrow> logger_call \<Rightarrow> bool" where
  "call_ok l (PushPrefix fmt str_ok ev_ok) = (stack_pos (lprefix l) < INT_MAX)"
| "call_ok l (Logll event_flag s len ev_ok) = (len \<le> int (length s))"
| "call_ok l x = True"

text \<open>
  Example values: the absent macros, the globals, a debugged request, a run of
  calls within one request, and a logger whose dump line is exactly full.
\<close>

definition ex_consts :: reql_consts where
  "ex_consts = \<lparr>REQL_INFO = 1, REQL_TRACE = 2, OP_SQL = 129, OP_DEBUG = 127\<rparr>"

definition ex_globals :: globals where
  "ex_globals = \<lparr>reqltruncate = 1, sqldbgflag = 0\<rparr>"

definition ex_master :: master where
  "ex_master =
     \<lparr>master_event_mask = 4, master_all_requests = 1, master_opcode_list = zero_list,
      master_opcode_inv_list = zero_list, master_table_rules = 0,
      master_stmts = replicate 16 [], master_num_stmts = 0\<rparr>"

definition ex_iq :: ireq where
  "ex_iq = \<lparr>iq_debug = 1, iq_retries = 0, iq_opcode = 5, iq_nowms = 1000, iq_is_fromsocket = 0\<rparr>"

definition ex_calls :: "logger_call list" where
  "ex_calls = [NewRequest ex_iq, PushPrefix ''a '' True True, Logl 2 ''hello'' True,
               PopPrefix True, SetRows 3]"



subsection \<open>Rule evaluation at the end of a request\<close>

text \<open>
  \<open>reqlog_end_request\<close> first stores the return code and the duration
  (\<open>now\<close> is \<open>time_epochms()\<close>), then walks the rules. The chain of tests that
  \<open>continue\<close> past a rule is \<open>rule_matches\<close>.
\<close>

definition end_request_begin :: "reqlogger \<Rightarrow> int \<Rightarrow> int \<Rightarrow> reqlogger" where
  "end_request_begin l rc0 now =
     l\<lparr>in_request := 0, rc := rc0, durationms := (now - startms l) + queuetimems l\<rparr>"

definition table_touched :: "reqlogger \<Rightarrow> char list \<Rightarrow> bool" where
  "table_touched l nm \<longleftrightarrow> list_ex (\<lambda>t. strcasecmp0 (fst t) nm) (tables l)"

definition rule_matches :: "reqlogger \<Rightarrow> logrule \<Rightarrow> bool" where
  "rule_matches l r \<longleftrightarrow>
     rule_active r \<noteq> 0 \<and>
     (case iq l of None \<Rightarrow> True | Some q \<Rightarrow> inrange (rule_retries r) (iq_retries q) \<noteq> 0) \<and>
     inrange (rule_duration r) (durationms l) \<noteq> 0 \<and>
     inrange (rule_vreplays r) (vreplays l) \<noteq> 0 \<and>
     indblrange (rule_sql_cost r) (sqlcost l) \<noteq> 0 \<and>
     inrange (rule_sql_rows r) (sqlrows l) \<noteq> 0 \<and>
     check_list (rule_opcode_list r) (opcode l) \<noteq> 0 \<and>
     check_list (rule_rc_list r) (rc l) \<noteq> 0 \<and>
     (if rule_stmt r \<noteq> []
      then (case stmt l of None \<Rightarrow> False | Some s \<Rightarrow> strstr s (rule_stmt r)) else True) \<and>
     (if rule_tablename r \<noteq> [] then table_touched l (rule_tablename r) else True)"

text \<open>
  The pending uses: one entry per output, the event masks of the matching rules
  or-ed together. A new entry goes to the head; \<open>use_ok\<close> tells whether its
  \<open>arena_alloc\<close> succeeds. The reference counts of the outputs and the writing of
  the request to each pending output after the loop are left out.
\<close>

fun merge_use :: "char list \<Rightarrow> u32 \<Rightarrow> (char list \<times> u32) list \<Rightarrow> (char list \<times> u32) list option" where
  "merge_use out em [] = None"
| "merge_use out em (u # us) =
     (if fst u = out then Some ((fst u, snd u OR em) # us)
      else map_option (\<lambda>us'. u # us') (merge_use out em us))"

definition add_use :: "bool \<Rightarrow> logrule \<Rightarrow> (char list \<times> u32) list \<Rightarrow> (char list \<times> u32) list" where
  "add_use use_ok r uses =
     (case merge_use (rule_out r) (rule_event_mask r) uses of
        Some us \<Rightarrow> us
      | None \<Rightarrow> if use_ok then (rule_out r, rule_event_mask r) # uses else uses)"

text \<open>
  One turn of the loop: the rule as it stays in the rule list (no entry when
  \<open>del_rule_ll\<close> removes it) and the pending uses.
\<close>

definition end_request_rule ::
  "reqlogger \<Rightarrow> bool \<Rightarrow> logrule \<Rightarrow> (char list \<times> u32) list \<Rightarrow> logrule list \<times> (char list \<times> u32) list" where
  "end_request_rule l use_ok r uses =
     (if \<not> rule_matches l r then ([r], uses)
      else
        (let uses1 = add_use use_ok r uses
         in if 0 < rule_count r then
              (if rule_count r - 1 = 0 then ([], uses1)
               else ([r\<lparr>rule_count := rule_count r - 1\<rparr>], uses1))
            else ([r], uses1)))"

fun end_request_rules ::
  "reqlogger \<Rightarrow> bool \<Rightarrow> logrule list \<Rightarrow> (char list \<times> u32) list \<Rightarrow> logrule list \<times> (char list \<times> u32) list" where
  "end_request_rules l use_ok [] uses = ([], uses)"
| "end_request_rules l use_ok (r # rs) uses =
     (let (kept, uses1) = end_request_rule l use_ok r uses;
          (rest, uses2) = end_request_rules l use_ok rs uses1
      in (kept @ rest, uses2))"

text \<open>A rule on which no condition is set: every range unbounded, every list and text empty.\<close>

definition no_conditions :: "logrule \<Rightarrow> bool" where
  "no_conditions r \<longleftrightarrow>
     rule_duration r = init_range \<and> rule_retries r = init_range \<and>
     rule_vreplays r = init_range \<and> rule_sql_cost r = init_dblrange \<and>
     rule_sql_rows r = init_range \<and> list_num (rule_rc_list r) = 0 \<and>
     list_num (rule_opcode_list r) = 0 \<and> rule_tablename r = [] \<and> rule_stmt r = []"

subsection \<open>The grouped report of the per-host counters\<close>

text \<open>
  \<open>struct summary_nodestats\<close> without the host name. The block opcodes are an enum
  of another header; the ones the classifier names are constructors here, all the
  others are \<open>BLOCK_OTHER\<close>.
\<close>

record summary_nodestats =
  finds :: u32
  rngexts :: u32
  writes :: u32
  other_fstsnds :: u32
  adds :: u32
  upds :: u32
  dels :: u32
  bsql :: u32
  recom :: u32
  snapisol :: u32
  serial :: u32
  sql_queries :: u32
  sql_steps :: u32
  sql_rows :: u32

datatype blockop =
  BLOCK2_ADDDTA | BLOCK2_ADDKL | BLOCK2_ADDKL_POS | BLOCK_ADDSL
| BLOCK_UPVRRN | BLOCK2_UPDATE | BLOCK2_UPDKL | BLOCK2_UPDKL_POS
| BLOCK_DELSEC | BLOCK_DELNOD | BLOCK2_DELDTA | BLOCK2_DELKL
| BLOCK2_SQL | BLOCK2_RECOM | BLOCK2_SNAPISOL | BLOCK2_SERIAL
| BLOCK_OTHER nat

definition zero_summary :: summary_nodestats where
  "zero_summary =
     \<lparr>finds = 0, rngexts = 0, writes = 0, other_fstsnds = 0, adds = 0, upds = 0, dels = 0,
      bsql = 0, recom = 0, snapisol = 0, serial = 0, sql_queries = 0, sql_steps = 0,
      sql_rows = 0\<rparr>"

text \<open>
  The \<open>switch\<close> over the block opcode. The last three cases have no \<open>break\<close>:
  control runs on into the cases below. There is no \<open>default\<close>.
\<close>

definition case_serial :: "u32 \<Rightarrow> summary_nodestats \<Rightarrow> summary_nodestats" where
  "case_serial n s = s\<lparr>serial := serial s + n\<rparr>"

definition case_snapisol :: "u32 \<Rightarrow> summary_nodestats \<Rightarrow> summary_nodestats" where
  "case_snapisol n s = case_serial n (s\<lparr>snapisol := snapisol s + n\<rparr>)"

definition case_recom :: "u32 \<Rightarrow> summary_nodestats \<Rightarrow> summary_nodestats" where
  "case_recom n s = case_snapisol n (s\<lparr>recom := recom s + n\<rparr>)"

fun blockop_switch :: "blockop \<Rightarrow> u32 \<Rightarrow> summary_nodestats \<Rightarrow> summary_nodestats" where
  "blockop_switch BLOCK2_ADDDTA n s = s\<lparr>adds := adds s + n\<rparr>"
| "blockop_switch BLOCK2_ADDKL n s = s\<lparr>adds := adds s + n\<rparr>"
| "blockop_switch BLOCK2_ADDKL_POS n s = s\<lparr>adds := adds s + n\<rparr>"
| "blockop_switch BLOCK_ADDSL n s = s\<lparr>adds := adds s + n\<rparr>"
| "blockop_switch BLOCK_UPVRRN n s = s\<lparr>upds := upds s + n\<rparr>"
| "blockop_switch BLOCK2_UPDATE n s = s\<lparr>upds := upds s + n\<rparr>"
| "blockop_switch BLOCK2_UPDKL n s = s\<lparr>upds := upds s + n\<rparr>"
| "blockop_switch BLOCK2_UPDKL_POS n s = s\<lparr>upds := upds s + n\<rparr>"
| "blockop_switch BLOCK_DELSEC n s = s\<lparr>dels := dels s + n\<rparr>"
| "blockop_switch BLOCK_DELNOD n s = s\<lparr>dels := dels s + n\<rparr>"
| "blockop_switch BLOCK2_DELDTA n s = s\<lparr>dels := dels s + n\<rparr>"
| "blockop_switch BLOCK2_DELKL n s = s\<lparr>dels := dels s + n\<rparr>"
| "blockop_switch BLOCK2_SQL n s = s\<lparr>bsql := bsql s + n\<rparr>"
| "blockop_switch BLOCK2_RECOM n s = case_recom n s"
| "blockop_switch BLOCK2_SNAPISOL n s = case_snapisol n s"
| "blockop_switch BLOCK2_SERIAL n s = case_serial n s"
| "blockop_switch (BLOCK_OTHER k) n s = s"

text \<open>
  The loop over the block opcodes of one host: \<open>counts\<close> pairs each opcode with the
  count the snapshot holds for it (\<open>snap.blockop_counts[gbl_blockop_count_xrefs[opcode]]\<close>);
  a zero count is skipped.
\<close>

definition blockop_counts_loop ::
  "(blockop \<times> u32) list \<Rightarrow> summary_nodestats \<Rightarrow> summary_nodestats" where
  "blockop_counts_loop counts s =
     fold (\<lambda>(op, n) s. if n = 0 then s else blockop_switch op n s) counts s"

text \<open>The seven block-op families of a summary, and how many of them a count reached.\<close>

definition families :: "summary_nodestats \<Rightarrow> u32 list" where
  "families s = [adds s, upds s, dels s, bsql s, recom s, snapisol s, serial s]"

definition families_hit :: "blockop \<Rightarrow> u32 \<Rightarrow> nat" where
  "families_hit op n =
     length (filter (\<lambda>x. x \<noteq> 0) (families (blockop_counts_loop [(op, n)] zero_summary)))"

text \<open>
  The rule list after a request, in the words of the specification: a matching rule
  with a positive count is decremented, and removed when the count reaches zero.
\<close>

definition spec_rule_after_request :: "reqlogger \<Rightarrow> logrule \<Rightarrow> logrule list" where
  "spec_rule_after_request l r =
     (if rule_matches l r \<and> 0 < rule_count r
      then (if rule_count r = 1 then [] else [r\<lparr>rule_count := rule_count r - 1\<rparr>])
      else [r])"

text \<open>
  Example rules and requests: a rule with every condition unset, the same with a
  count of two, a rule as \<open>new_rule_ll\<close> leaves it, and a finished request.
\<close>

definition ex_open_rule :: logrule where
  "ex_open_rule = (new_rule_ll ''0'' default_out)\<lparr>rule_active := 1, rule_vreplays := init_range\<rparr>"

definition ex_count_rule :: logrule where
  "ex_count_rule = ex_open_rule\<lparr>rule_count := 2\<rparr>"

definition ex_new_rule :: logrule where
  "ex_new_rule = (new_rule_ll ''0'' default_out)\<lparr>rule_active := 1\<rparr>"

definition ex_request :: reqlogger where
  "ex_request = end_request_begin (reqlog_alloc\<lparr>opcode := 5, vreplays := 1\<rparr>) 0 1500"

subsection \<open>Snapshots of the per-host counters\<close>

















section \<open>Verification\<close>


subsection \<open>The prefix stack\<close>

lemma prefix_push_deep:
  "MAX_PREFIXES \<le> stack_pos p \<Longrightarrow> stack_pos p < INT_MAX \<Longrightarrow>
   prefix_push p t n = Some (p\<lparr>stack_pos := stack_pos p + 1\<rparr>)"
  by (simp add: prefix_push_def)

lemma push_len_bounds:
  assumes "0 \<le> pos p" "pos p < PREFIX_SIZE" "0 \<le> n"
  defines "m \<equiv> (if n + pos p < 0 \<or> PREFIX_SIZE \<le> n + pos p then (PREFIX_SIZE - 1) - pos p else n)"
  shows "0 \<le> m \<and> m \<le> n \<and> pos p + m < PREFIX_SIZE"
  using assms by (auto simp: PREFIX_SIZE_def)

lemma prefix_push_shallow:
  assumes inv: "prefix_inv p" and ok: "text_ok (t, n)" and d: "stack_pos p < MAX_PREFIXES"
  shows "\<exists>q. prefix_push p t n = Some q \<and> prefix_inv q \<and> stack_pos q = stack_pos p + 1 \<and>
             frames q = frames p @ [pos p] \<and> pos p \<le> pos q"
proof -
  define m where "m = (if n + pos p < 0 \<or> PREFIX_SIZE \<le> n + pos p then (PREFIX_SIZE - 1) - pos p else n)"
  from inv have al: "int (length (prefix p)) = PREFIX_SIZE" "int (length (stack p)) = MAX_PREFIXES"
    and p0: "0 \<le> pos p" "pos p < PREFIX_SIZE" and s0: "0 \<le> stack_pos p"
    and fr: "list_all (\<lambda>x. 0 \<le> x \<and> x < PREFIX_SIZE) (frames p)"
    by (simp_all add: prefix_inv_def prefix_alloc_def)
  from ok have n0: "0 \<le> n" "n \<le> int (length t)" by (simp_all add: text_ok_def)
  have mb: "0 \<le> m" "m \<le> n" "pos p + m < PREFIX_SIZE"
    using push_len_bounds[OF p0 n0(1)] by (simp_all add: m_def)
  define st where "st = (stack p)[nat (stack_pos p) := pos p]"
  have 1: "store (stack p) (stack_pos p) (pos p) = Some st"
    using s0 d al by (simp add: store_def st_def)
  define buf where "buf = take (nat (pos p)) (prefix p) @ take (nat m) t @ drop (nat (pos p + m)) (prefix p)"
  have 2: "memcpy (prefix p) (pos p) t m = Some buf"
    using mb n0 p0 al by (simp add: memcpy_def buf_def)
  have nn: "nat (pos p) + nat m < length (prefix p)" "nat m \<le> length t"
    "nat (pos p + m) = nat (pos p) + nat m"
    using mb n0 p0 al by (simp_all add: nat_add_distrib)
  have "length buf = length (prefix p)"
    using nn by (simp add: buf_def)
  then have lb: "int (length buf) = PREFIX_SIZE"
    using al by simp
  define buf' where "buf' = buf[nat (pos p + m) := NUL]"
  have 3: "store buf (pos p + m) NUL = Some buf'"
    using mb p0 lb by (simp add: store_def buf'_def)
  define q where "q = p\<lparr>stack := st, prefix := buf', pos := pos p + m, stack_pos := stack_pos p + 1\<rparr>"
  have lt: "stack_pos p < INT_MAX" using d by (simp add: MAX_PREFIXES_def INT_MAX_def)
  have r: "prefix_push p t n = Some q"
    using d 1 2 3 lt by (simp add: prefix_push_def m_def[symmetric] q_def Let_def)
  have fq: "frames q = frames p @ [pos p]"
    using s0 d al by (simp add: frames_def q_def st_def nat_add_distrib take_Suc_conv_app_nth MAX_PREFIXES_def)
  have "prefix_inv q"
    using al p0 s0 fr mb lb fq
    by (simp add: prefix_inv_def prefix_alloc_def q_def[THEN arg_cong[of _ _ prefix]] q_def[THEN arg_cong[of _ _ pos]]
        q_def[THEN arg_cong[of _ _ stack]] q_def[THEN arg_cong[of _ _ stack_pos]] buf'_def st_def)
  then show ?thesis using r fq mb by (auto simp: q_def)
qed


lemma prefix_push_ok:
  assumes inv: "prefix_inv p" and ok: "text_ok (t, n)" and lt: "stack_pos p < INT_MAX"
  shows "\<exists>q. prefix_push p t n = Some q \<and> prefix_inv q \<and> stack_pos q = stack_pos p + 1 \<and>
             frames p = take (nat (stack_pos p)) (frames q) \<and>
             (if stack_pos p < MAX_PREFIXES then frames q ! nat (stack_pos p) = pos p
              else pos q = pos p \<and> prefix q = prefix p)"
proof (cases "stack_pos p < MAX_PREFIXES")
  case True
  from prefix_push_shallow[OF inv ok True] obtain q where
    q: "prefix_push p t n = Some q" "prefix_inv q" "stack_pos q = stack_pos p + 1"
       "frames q = frames p @ [pos p]" by blast
  from inv True have "nat (stack_pos p) \<le> length (stack p)"
    unfolding prefix_inv_def prefix_alloc_def by linarith
  then have "length (frames p) = nat (stack_pos p)"
    by (simp add: frames_def)
  with q True show ?thesis by (simp add: nth_append)
next
  case False
  define q where "q = p\<lparr>stack_pos := stack_pos p + 1\<rparr>"
  from False lt have r: "prefix_push p t n = Some q"
    by (simp add: prefix_push_deep q_def)
  from inv False have al: "length (stack p) \<le> nat (stack_pos p)"
    unfolding prefix_inv_def prefix_alloc_def by linarith
  then have f: "frames q = frames p" "frames p = stack p"
    by (simp_all add: frames_def q_def)
  with inv have "prefix_inv q"
    by (simp add: prefix_inv_def prefix_alloc_def q_def[THEN arg_cong[of _ _ prefix]]
        q_def[THEN arg_cong[of _ _ pos]] q_def[THEN arg_cong[of _ _ stack]]
        q_def[THEN arg_cong[of _ _ stack_pos]])
  with r f al False show ?thesis by (simp add: q_def frames_def)
qed

lemma prefix_pop_ok:
  assumes inv: "prefix_inv p" and d: "0 < stack_pos p"
  shows "\<exists>q. prefix_pop p = Some q \<and> prefix_inv q \<and> stack_pos q = stack_pos p - 1 \<and>
             frames q = take (nat (stack_pos p - 1)) (frames p) \<and>
             (if stack_pos p - 1 < MAX_PREFIXES
              then pos q = frames p ! nat (stack_pos p - 1)
              else pos q = pos p \<and> prefix q = prefix p)"
proof -
  from inv have al: "int (length (prefix p)) = PREFIX_SIZE" "int (length (stack p)) = MAX_PREFIXES"
    and p0: "0 \<le> pos p" "pos p < PREFIX_SIZE" and nul: "prefix p ! nat (pos p) = NUL"
    and fr: "list_all (\<lambda>x. 0 \<le> x \<and> x < PREFIX_SIZE) (frames p)"
    by (simp_all add: prefix_inv_def prefix_alloc_def)
  have im: "\<not> stack_pos p \<le> INT_MIN" using d by (simp add: INT_MIN_def)
  show ?thesis
  proof (cases "stack_pos p - 1 < MAX_PREFIXES")
    case True
    define x where "x = stack p ! nat (stack_pos p - 1)"
    have xf: "x = frames p ! nat (stack_pos p - 1)"
      using d by (simp add: x_def frames_def)
    have "nat (stack_pos p - 1) < length (frames p)"
      using d True al by (simp add: frames_def)
    with fr have xb: "0 \<le> x" "x < PREFIX_SIZE"
      unfolding xf by (simp_all add: list_all_length)
    define q where "q = p\<lparr>stack_pos := stack_pos p - 1, pos := x, prefix := (prefix p)[nat x := NUL]\<rparr>"
    have r: "prefix_pop p = Some q"
      using im d True al xb by (simp add: prefix_pop_def Let_def store_def q_def x_def)
    have fq: "frames q = take (nat (stack_pos p - 1)) (frames p)"
      using d by (simp add: frames_def q_def min_def)
    have "list_all (\<lambda>x. 0 \<le> x \<and> x < PREFIX_SIZE) (frames q)"
      unfolding fq using fr by (auto simp: list_all_iff dest: in_set_takeD)
    then have "prefix_inv q"
      using al xb d by (simp add: prefix_inv_def prefix_alloc_def q_def[THEN arg_cong[of _ _ prefix]]
        q_def[THEN arg_cong[of _ _ pos]] q_def[THEN arg_cong[of _ _ stack]]
        q_def[THEN arg_cong[of _ _ stack_pos]])
    with r fq True xf show ?thesis by (simp add: q_def)
  next
    case False
    have same: "(prefix p)[nat (pos p) := NUL] = prefix p"
      by (metis nul list_update_id)
    define q where "q = p\<lparr>stack_pos := stack_pos p - 1\<rparr>"
    have r: "prefix_pop p = Some q"
      using im d False al p0 same by (simp add: prefix_pop_def Let_def store_def q_def)
    have fq: "frames q = frames p" "take (nat (stack_pos p - 1)) (frames p) = frames p"
      using False al by (simp_all add: frames_def q_def)
    with inv d have "prefix_inv q"
      by (simp add: prefix_inv_def prefix_alloc_def q_def[THEN arg_cong[of _ _ prefix]]
        q_def[THEN arg_cong[of _ _ pos]] q_def[THEN arg_cong[of _ _ stack]]
        q_def[THEN arg_cong[of _ _ stack_pos]])
    with r fq False show ?thesis by (simp add: q_def)
  qed
qed

lemma pops_Suc_last:
  "pops (Suc k) p = (case pops k p of None \<Rightarrow> None | Some q \<Rightarrow> prefix_pop q)"
proof (induction k arbitrary: p)
  case 0
  show ?case by (simp split: option.split)
next
  case (Suc k)
  show ?case
  proof (cases "prefix_pop p")
    case None
    then show ?thesis by simp
  next
    case (Some q)
    have "pops (Suc (Suc k)) p = pops (Suc k) q" using Some by simp
    also have "\<dots> = (case pops k q of None \<Rightarrow> None | Some q' \<Rightarrow> prefix_pop q')" by (rule Suc.IH)
    also have "\<dots> = (case pops (Suc k) p of None \<Rightarrow> None | Some q' \<Rightarrow> prefix_pop q')"
      using Some by simp
    finally show ?thesis .
  qed
qed

lemma pushes_ok:
  "prefix_inv p \<Longrightarrow> list_all text_ok ts \<Longrightarrow> stack_pos p + int (length ts) \<le> INT_MAX \<Longrightarrow>
   \<exists>q. pushes p ts = Some q \<and> prefix_inv q \<and> stack_pos q = stack_pos p + int (length ts)"
proof (induction ts arbitrary: p)
  case Nil
  then show ?case by simp
next
  case (Cons a as)
  from Cons.prems have ok: "text_ok (fst a, snd a)" and lt: "stack_pos p < INT_MAX" by simp_all
  from prefix_push_ok[OF Cons.prems(1) ok lt] obtain q where
    q: "prefix_push p (fst a) (snd a) = Some q" "prefix_inv q" "stack_pos q = stack_pos p + 1" by blast
  from Cons.prems q have "\<exists>r. pushes q as = Some r \<and> prefix_inv r \<and> stack_pos r = stack_pos q + int (length as)"
    by (intro Cons.IH) simp_all
  with q show ?case by auto
qed

lemma pushes_pops_restore:
  "prefix_inv p \<Longrightarrow> list_all text_ok ts \<Longrightarrow> stack_pos p + int (length ts) \<le> INT_MAX \<Longrightarrow>
   pushes p ts = Some p1 \<Longrightarrow>
   \<exists>p2. pops (length ts) p1 = Some p2 \<and> prefix_inv p2 \<and> pos p2 = pos p \<and>
        stack_pos p2 = stack_pos p \<and> frames p2 = frames p \<and>
        (MAX_PREFIXES \<le> stack_pos p \<longrightarrow> prefix p2 = prefix p)"
proof (induction ts arbitrary: p)
  case Nil
  then show ?case by simp
next
  case (Cons a as)
  from Cons.prems have ok: "text_ok (fst a, snd a)" and lt: "stack_pos p < INT_MAX" by simp_all
  from prefix_push_ok[OF Cons.prems(1) ok lt] obtain q where
    q: "prefix_push p (fst a) (snd a) = Some q" "prefix_inv q" "stack_pos q = stack_pos p + 1"
       "frames p = take (nat (stack_pos p)) (frames q)"
       "if stack_pos p < MAX_PREFIXES then frames q ! nat (stack_pos p) = pos p
        else pos q = pos p \<and> prefix q = prefix p" by blast
  from Cons.prems q have p1: "pushes q as = Some p1" by simp
  from Cons.prems q have "\<exists>r. pops (length as) p1 = Some r \<and> prefix_inv r \<and> pos r = pos q \<and>
        stack_pos r = stack_pos q \<and> frames r = frames q \<and>
        (MAX_PREFIXES \<le> stack_pos q \<longrightarrow> prefix r = prefix q)"
    by (intro Cons.IH p1) simp_all
  then obtain r where r: "pops (length as) p1 = Some r" "prefix_inv r" "pos r = pos q"
    "stack_pos r = stack_pos q" "frames r = frames q"
    "MAX_PREFIXES \<le> stack_pos q \<longrightarrow> prefix r = prefix q" by blast
  from Cons.prems(1) have s0: "0 \<le> stack_pos p" by (simp add: prefix_inv_def)
  with r q have d: "0 < stack_pos r" by simp
  from prefix_pop_ok[OF r(2) d] obtain p2 where
    p2: "prefix_pop r = Some p2" "prefix_inv p2" "stack_pos p2 = stack_pos r - 1"
        "frames p2 = take (nat (stack_pos r - 1)) (frames r)"
        "if stack_pos r - 1 < MAX_PREFIXES then pos p2 = frames r ! nat (stack_pos r - 1)
         else pos p2 = pos r \<and> prefix p2 = prefix r" by blast
  have "pops (length (a # as)) p1 = Some p2"
    using r(1) p2(1) by (simp add: pops_Suc_last del: pops.simps)
  moreover have "stack_pos p2 = stack_pos p" using p2 r q by simp
  moreover have "frames p2 = frames p" using p2 r q by simp
  moreover have "pos p2 = pos p"
    using p2(5) q(5) r q(3) by (simp split: if_splits)
  moreover have "MAX_PREFIXES \<le> stack_pos p \<longrightarrow> prefix p2 = prefix p"
    using p2(5) q(5) r q(3) by (simp split: if_splits)
  ultimately show ?case using p2(2) by blast
qed

lemma prefix_push_pos:
  "prefix_push p t n = Some q \<Longrightarrow> stack_pos p < MAX_PREFIXES \<Longrightarrow> 0 \<le> n \<Longrightarrow> 0 \<le> pos p \<Longrightarrow>
   pos q = min (pos p + n) (PREFIX_SIZE - 1)"
  by (auto simp: prefix_push_def Let_def PREFIX_SIZE_def split: option.splits if_splits)

lemma prefix_pop_underflow:
  assumes al: "prefix_alloc p" and d: "stack_pos p = 0"
  shows "\<exists>q. prefix_pop p = Some q \<and> pos q = 0 \<and> stack_pos q = 0 \<and> stack q = stack p \<and>
             prefix q = (prefix p)[0 := NUL]"
  using al d by (simp add: prefix_pop_def Let_def store_def INT_MIN_def prefix_alloc_def PREFIX_SIZE_def)

lemma prefix_pop_all_ok:
  assumes al: "prefix_alloc p"
  shows "\<exists>q. prefix_pop_all p = Some q \<and> prefix_inv q \<and> pos q = 0 \<and> stack_pos q = 0"
  using al by (simp add: prefix_pop_all_def store_def prefix_alloc_def PREFIX_SIZE_def prefix_inv_def frames_def)

lemma prefix_init_ok:
  assumes al: "prefix_alloc p"
  shows "\<exists>q. prefix_init p = Some q \<and> prefix_inv q \<and> pos q = 0 \<and> stack_pos q = 0"
  using al by (simp add: prefix_init_def store_def prefix_alloc_def PREFIX_SIZE_def prefix_inv_def frames_def)

lemma prefix_empty:
  assumes "prefix_inv p" "pos p = 0"
  shows "prefix_text p = [] \<and> prefix_cstr p = []"
proof -
  from assms have "prefix p \<noteq> []" "prefix p ! 0 = NUL"
    by (auto simp: prefix_inv_def prefix_alloc_def PREFIX_SIZE_def)
  then have "prefix_cstr p = []"
    by (cases "prefix p") (simp_all add: prefix_cstr_def)
  with assms show ?thesis by (simp add: prefix_text_def)
qed

lemma prefix_pop_total:
  assumes inv: "prefix_inv p"
  shows "\<exists>q. prefix_pop p = Some q \<and> prefix_inv q"
proof (cases "0 < stack_pos p")
  case True
  from prefix_pop_ok[OF inv True] show ?thesis by blast
next
  case False
  with inv have d: "stack_pos p = 0" and al: "prefix_alloc p" by (simp_all add: prefix_inv_def)
  from prefix_pop_underflow[OF al d] obtain q where
    q: "prefix_pop p = Some q" "pos q = 0" "stack_pos q = 0" "stack q = stack p"
       "prefix q = (prefix p)[0 := NUL]" by blast
  with al have "prefix_inv q"
    by (simp add: prefix_inv_def prefix_alloc_def frames_def PREFIX_SIZE_def)
  with q show ?thesis by blast
qed

text \<open>
  Claim C2. From every state of the prefix stack that satisfies the invariant, and for
  every text, \<open>prefix_push\<close> followed by \<open>prefix_pop\<close> returns to the length
  and the depth from before the push; a push that does not fit is cut at 255. Any
  list of pushes followed by as many pops returns to the length and depth it started
  from; started after \<open>prefix_init\<close> it ends with an empty prefix at depth zero.
  \<open>prefix_pop_all\<close> reaches that state from any depth.
\<close>

theorem prefix_push_pop_restores:
  assumes inv: "prefix_inv p" and ok: "text_ok (t, n)" and oks: "list_all text_ok ts"
    and lt: "stack_pos p + 1 + int (length ts) \<le> INT_MAX" and al: "prefix_alloc p0"
  shows "(\<exists>q r. prefix_push p t n = Some q \<and> prefix_pop q = Some r \<and>
            (stack_pos p < MAX_PREFIXES \<longrightarrow> pos q = min (pos p + n) (PREFIX_SIZE - 1)) \<and>
            pos r = pos p \<and> stack_pos r = stack_pos p) \<and>
         (\<exists>p1 p2. pushes p ts = Some p1 \<and> pops (length ts) p1 = Some p2 \<and>
            pos p2 = pos p \<and> stack_pos p2 = stack_pos p) \<and>
         (\<exists>i p1 p2. prefix_init p0 = Some i \<and> pushes i ts = Some p1 \<and>
            stack_pos p1 = int (length ts) \<and> pops (length ts) p1 = Some p2 \<and>
            pos p2 = 0 \<and> stack_pos p2 = 0 \<and> prefix_text p2 = [] \<and> prefix_cstr p2 = []) \<and>
         (\<exists>z. prefix_pop_all p = Some z \<and> pos z = 0 \<and> stack_pos z = 0 \<and>
            prefix_text z = [] \<and> prefix_cstr z = [])"
proof (intro conjI)
  have lt1: "stack_pos p < INT_MAX" using lt by simp
  from inv have p0: "0 \<le> pos p" "0 \<le> stack_pos p" by (simp_all add: prefix_inv_def)
  from ok have n0: "0 \<le> n" by (simp add: text_ok_def)
  from prefix_push_ok[OF inv ok lt1] obtain q where
    q: "prefix_push p t n = Some q" "prefix_inv q" "stack_pos q = stack_pos p + 1" by blast
  have one: "pushes p [(t, n)] = Some q" using q by simp
  have "\<exists>r. pops (length [(t, n)]) q = Some r \<and> prefix_inv r \<and> pos r = pos p \<and>
        stack_pos r = stack_pos p \<and> frames r = frames p \<and>
        (MAX_PREFIXES \<le> stack_pos p \<longrightarrow> prefix r = prefix p)"
    using inv ok lt1 one by (intro pushes_pops_restore) simp_all
  then obtain r where r: "prefix_pop q = Some r" "pos r = pos p" "stack_pos r = stack_pos p"
    by (auto split: option.splits)
  have "stack_pos p < MAX_PREFIXES \<longrightarrow> pos q = min (pos p + n) (PREFIX_SIZE - 1)"
    using prefix_push_pos[OF q(1) _ n0 p0(1)] by simp
  with q r show "\<exists>q r. prefix_push p t n = Some q \<and> prefix_pop q = Some r \<and>
            (stack_pos p < MAX_PREFIXES \<longrightarrow> pos q = min (pos p + n) (PREFIX_SIZE - 1)) \<and>
            pos r = pos p \<and> stack_pos r = stack_pos p" by blast
next
  have lt2: "stack_pos p + int (length ts) \<le> INT_MAX" using lt by simp
  from pushes_ok[OF inv oks lt2] obtain p1 where p1: "pushes p ts = Some p1" by blast
  from pushes_pops_restore[OF inv oks lt2 p1] p1
  show "\<exists>p1 p2. pushes p ts = Some p1 \<and> pops (length ts) p1 = Some p2 \<and>
            pos p2 = pos p \<and> stack_pos p2 = stack_pos p" by blast
next
  from prefix_init_ok[OF al] obtain i where
    i: "prefix_init p0 = Some i" "prefix_inv i" "pos i = 0" "stack_pos i = 0" by blast
  from inv have "0 \<le> stack_pos p" by (simp add: prefix_inv_def)
  with lt i have lt3: "stack_pos i + int (length ts) \<le> INT_MAX" by simp
  from pushes_ok[OF i(2) oks lt3] obtain p1 where
    p1: "pushes i ts = Some p1" "stack_pos p1 = stack_pos i + int (length ts)" by blast
  from pushes_pops_restore[OF i(2) oks lt3 p1(1)] obtain p2 where
    p2: "pops (length ts) p1 = Some p2" "prefix_inv p2" "pos p2 = pos i" "stack_pos p2 = stack_pos i"
    by blast
  from prefix_empty[OF p2(2)] p2 i have "prefix_text p2 = [] \<and> prefix_cstr p2 = []" by simp
  with i p1 p2 show "\<exists>i p1 p2. prefix_init p0 = Some i \<and> pushes i ts = Some p1 \<and>
            stack_pos p1 = int (length ts) \<and> pops (length ts) p1 = Some p2 \<and>
            pos p2 = 0 \<and> stack_pos p2 = 0 \<and> prefix_text p2 = [] \<and> prefix_cstr p2 = []"
    by auto
next
  from inv have "prefix_alloc p" by (simp add: prefix_inv_def)
  from prefix_pop_all_ok[OF this] obtain z where
    z: "prefix_pop_all p = Some z" "prefix_inv z" "pos z = 0" "stack_pos z = 0" by blast
  from prefix_empty[OF z(2) z(3)] z
  show "\<exists>z. prefix_pop_all p = Some z \<and> pos z = 0 \<and> stack_pos z = 0 \<and>
            prefix_text z = [] \<and> prefix_cstr z = []" by blast
qed

lemma ex_prefix_inv: "prefix_inv ex_prefix"
  by (simp add: prefix_inv_def prefix_alloc_def ex_prefix_def frames_def PREFIX_SIZE_def
      MAX_PREFIXES_def nth_append)

lemma ex_texts_ok: "list_all text_ok ex_texts"
  by (simp add: ex_texts_def list_all_iff text_ok_def)

text \<open>
  The same at a prefix of length 250: a ten character text is cut to five, the pop
  returns to 250; seventeen pushes and pops on a fresh stack end empty.
\<close>

theorem prefix_push_pop_restores_witness:
  "prefix_inv ex_prefix \<and> text_ok (''0123456789'', 10) \<and> list_all text_ok ex_texts \<and>
   stack_pos ex_prefix + 1 + int (length ex_texts) \<le> INT_MAX \<and> prefix_alloc ex_zero \<and>
   (\<exists>q r. prefix_push ex_prefix ''0123456789'' 10 = Some q \<and> prefix_pop q = Some r \<and>
      pos q = 255 \<and> pos r = 250 \<and> stack_pos r = 1) \<and>
   (\<exists>i p1 p2. prefix_init ex_zero = Some i \<and> pushes i ex_texts = Some p1 \<and>
      stack_pos p1 = 17 \<and> pops 17 p1 = Some p2 \<and> pos p2 = 0 \<and> stack_pos p2 = 0 \<and>
      prefix_cstr p2 = [])"
proof -
  have h1: "prefix_inv ex_prefix" by (rule ex_prefix_inv)
  have h2: "text_ok (''0123456789'', 10)" by (simp add: text_ok_def)
  have h3: "list_all text_ok ex_texts" by (rule ex_texts_ok)
  have h4: "stack_pos ex_prefix + 1 + int (length ex_texts) \<le> INT_MAX"
    by (simp add: ex_prefix_def ex_texts_def INT_MAX_def)
  have h5: "prefix_alloc ex_zero"
    by (simp add: prefix_alloc_def ex_zero_def PREFIX_SIZE_def MAX_PREFIXES_def)
  have e: "stack_pos ex_prefix < MAX_PREFIXES" "pos ex_prefix = 250" "stack_pos ex_prefix = 1"
    "length ex_texts = 17"
    by (simp_all add: ex_prefix_def MAX_PREFIXES_def ex_texts_def)
  from prefix_push_pop_restores[OF h1 h2 h3 h4 h5] e h1 h2 h3 h4 h5
  show ?thesis by (simp add: PREFIX_SIZE_def) blast
qed

text \<open>
  Claim C9. At depth 16 a further \<open>prefix_push\<close> leaves the buffer, the length and the
  stored frames as they are and only counts the depth up to 17; the \<open>prefix_pop\<close>
  that matches it only counts the depth down again. No operation leaves the arrays:
  from a state that satisfies the invariant every operation is defined and keeps it.
\<close>

theorem prefix_push_at_max_depth:
  assumes inv: "prefix_inv p" and full: "stack_pos p = MAX_PREFIXES"
    and inv': "prefix_inv s" and ok: "text_ok (t', n')" and lt: "stack_pos s < INT_MAX"
    and al: "prefix_alloc a"
  shows "(\<exists>q r. prefix_push p t n = Some q \<and> prefix q = prefix p \<and> pos q = pos p \<and>
            stack q = stack p \<and> stack_pos q = MAX_PREFIXES + 1 \<and>
            prefix_pop q = Some r \<and> prefix r = prefix p \<and> pos r = pos p \<and>
            stack r = stack p \<and> stack_pos r = MAX_PREFIXES) \<and>
         (\<exists>s1. prefix_push s t' n' = Some s1 \<and> prefix_inv s1) \<and>
         (\<exists>s2. prefix_pop s = Some s2 \<and> prefix_inv s2) \<and>
         (\<exists>s3. prefix_pop_all s = Some s3 \<and> prefix_inv s3) \<and>
         (\<exists>s4. prefix_init a = Some s4 \<and> prefix_inv s4)"
proof (intro conjI)
  define q where "q = p\<lparr>stack_pos := stack_pos p + 1\<rparr>"
  have "stack_pos p < INT_MAX" using full by (simp add: MAX_PREFIXES_def INT_MAX_def)
  then have pq: "prefix_push p t n = Some q"
    using full by (simp add: prefix_push_deep q_def)
  from inv have p0: "0 \<le> pos p" "pos p < int (length (prefix p))" "prefix p ! nat (pos p) = NUL"
    by (simp_all add: prefix_inv_def prefix_alloc_def)
  have same: "(prefix p)[nat (pos p) := NUL] = prefix p"
    by (metis p0(3) list_update_id)
  have "prefix_pop q = Some p"
    using full p0 same
    by (simp add: prefix_pop_def q_def Let_def store_def MAX_PREFIXES_def INT_MIN_def)
  with pq full show "\<exists>q r. prefix_push p t n = Some q \<and> prefix q = prefix p \<and> pos q = pos p \<and>
            stack q = stack p \<and> stack_pos q = MAX_PREFIXES + 1 \<and>
            prefix_pop q = Some r \<and> prefix r = prefix p \<and> pos r = pos p \<and>
            stack r = stack p \<and> stack_pos r = MAX_PREFIXES"
    by (simp add: q_def)
next
  from prefix_push_ok[OF inv' ok lt] show "\<exists>s1. prefix_push s t' n' = Some s1 \<and> prefix_inv s1"
    by blast
next
  from prefix_pop_total[OF inv'] show "\<exists>s2. prefix_pop s = Some s2 \<and> prefix_inv s2" .
next
  from inv' have "prefix_alloc s" by (simp add: prefix_inv_def)
  from prefix_pop_all_ok[OF this] show "\<exists>s3. prefix_pop_all s = Some s3 \<and> prefix_inv s3"
    by blast
next
  from prefix_init_ok[OF al] show "\<exists>s4. prefix_init a = Some s4 \<and> prefix_inv s4" by blast
qed

lemma ex_zero_inv: "prefix_inv ex_zero"
  by (simp add: prefix_inv_def prefix_alloc_def ex_zero_def frames_def PREFIX_SIZE_def
      MAX_PREFIXES_def)

text \<open>
  The same after sixteen pushes of a four character text on a fresh stack, pushing a
  seventeenth.
\<close>

theorem prefix_push_at_max_depth_witness:
  "\<exists>p. pushes ex_zero (take 16 ex_texts) = Some p \<and> prefix_inv p \<and> stack_pos p = MAX_PREFIXES \<and>
       text_ok (''req '', 4) \<and> stack_pos p < INT_MAX \<and> prefix_alloc ex_zero \<and>
       (\<exists>q r. prefix_push p ''req '' 4 = Some q \<and> prefix q = prefix p \<and> pos q = pos p \<and>
          stack_pos q = 17 \<and> prefix_pop q = Some r \<and> prefix r = prefix p \<and> pos r = pos p \<and>
          stack_pos r = 16)"
proof -
  have oks: "list_all text_ok (take 16 ex_texts)"
    by (auto simp: ex_texts_def list_all_iff text_ok_def dest!: in_set_takeD)
  have lt: "stack_pos ex_zero + int (length (take 16 ex_texts)) \<le> INT_MAX"
    by (simp add: ex_zero_def ex_texts_def INT_MAX_def)
  from pushes_ok[OF ex_zero_inv oks lt] obtain p where
    p: "pushes ex_zero (take 16 ex_texts) = Some p" "prefix_inv p"
       "stack_pos p = stack_pos ex_zero + int (length (take 16 ex_texts))" by blast
  have h2: "stack_pos p = MAX_PREFIXES"
    using p(3) by (simp add: ex_zero_def ex_texts_def MAX_PREFIXES_def)
  have h4: "text_ok (''req '', 4)" by (simp add: text_ok_def)
  have h5: "stack_pos p < INT_MAX" using h2 by (simp add: MAX_PREFIXES_def INT_MAX_def)
  have h6: "prefix_alloc ex_zero" using ex_zero_inv by (simp add: prefix_inv_def)
  from prefix_push_at_max_depth[OF p(2) h2 p(2) h4 h5 h6, of "''req ''" 4]
  have "\<exists>q r. prefix_push p ''req '' 4 = Some q \<and> prefix q = prefix p \<and> pos q = pos p \<and>
          stack_pos q = 17 \<and> prefix_pop q = Some r \<and> prefix r = prefix p \<and> pos r = pos p \<and>
          stack_pos r = 16"
    by (simp add: MAX_PREFIXES_def) blast
  with p h2 h4 h5 h6 show ?thesis by blast
qed

subsection \<open>Integer lists\<close>

lemma add_list_flip:
  assumes ok: "list_ok l" and ne: "polarity inv0 \<noteq> list_inv l"
  shows "\<exists>l'. add_list l v inv0 = (l', 0) \<and> entries l' = [v] \<and> list_inv l' = polarity inv0 \<and>
              list_ok l'"
  using ok ne
  by (cases "list_list l")
     (auto simp: add_list_def Let_def entries_def list_ok_def LIST_MAX_def)

lemma add_list_present:
  assumes same: "polarity inv0 = list_inv l" and mem: "v \<in> set (entries l)"
  shows "add_list l v inv0 = (l, 0)"
  using same mem by (simp add: add_list_def Let_def entries_def)

lemma add_list_full:
  assumes same: "polarity inv0 = list_inv l" and nmem: "v \<notin> set (entries l)"
    and full: "LIST_MAX \<le> list_num l"
  shows "add_list l v inv0 = (l, - 1)"
  using same nmem full by (simp add: add_list_def Let_def entries_def)

lemma add_list_append:
  assumes ok: "list_ok l" and same: "polarity inv0 = list_inv l" and nmem: "v \<notin> set (entries l)"
    and room: "list_num l < LIST_MAX"
  shows "\<exists>l'. add_list l v inv0 = (l', 0) \<and> entries l' = entries l @ [v] \<and>
              list_inv l' = list_inv l \<and> list_num l' = list_num l + 1 \<and> list_ok l'"
  using ok same nmem room
  by (simp add: add_list_def Let_def entries_def list_ok_def take_Suc_conv_app_nth)

lemma add_list_summary:
  assumes ok: "list_ok l"
  shows "list_ok (fst (add_list l v inv0)) \<and>
         list_inv (fst (add_list l v inv0)) = polarity inv0 \<and>
         set (entries (fst (add_list l v inv0))) \<subseteq>
           insert v (if polarity inv0 = list_inv l then set (entries l) else {}) \<and>
         (snd (add_list l v inv0) = 0 \<or> snd (add_list l v inv0) = - 1) \<and>
         (snd (add_list l v inv0) = 0 \<longrightarrow> v \<in> set (entries (fst (add_list l v inv0)))) \<and>
         (polarity inv0 = list_inv l \<longrightarrow> set (entries l) \<subseteq> set (entries (fst (add_list l v inv0))))"
proof (cases "polarity inv0 = list_inv l")
  case False
  from add_list_flip[OF ok False[THEN not_sym, THEN not_sym], of v] False show ?thesis by auto
next
  case same: True
  show ?thesis
  proof (cases "v \<in> set (entries l)")
    case True
    from add_list_present[OF same True] ok same True show ?thesis by auto
  next
    case nmem: False
    show ?thesis
    proof (cases "LIST_MAX \<le> list_num l")
      case True
      from add_list_full[OF same nmem True] ok same show ?thesis by auto
    next
      case False
      then have "list_num l < LIST_MAX" by simp
      from add_list_append[OF ok same nmem this] same show ?thesis by auto
    qed
  qed
qed

lemma add_lists_polarity:
  "list_ok l \<Longrightarrow>
   (\<forall>v\<in>set (entries l). \<exists>p. (v, p) \<in> H \<and> polarity p = list_inv l) \<Longrightarrow>
   list_ok (add_lists l xs) \<and>
   (\<forall>v\<in>set (entries (add_lists l xs)).
      \<exists>p. (v, p) \<in> H \<union> set xs \<and> polarity p = list_inv (add_lists l xs))"
proof (induction xs arbitrary: l H)
  case Nil
  then show ?case by simp
next
  case (Cons x xs)
  define l1 where "l1 = fst (add_list l (fst x) (snd x))"
  from add_list_summary[OF Cons.prems(1), of "fst x" "snd x"]
  have s: "list_ok l1" "list_inv l1 = polarity (snd x)"
    "set (entries l1) \<subseteq> insert (fst x) (if polarity (snd x) = list_inv l then set (entries l) else {})"
    by (simp_all add: l1_def)
  have h: "\<forall>v\<in>set (entries l1). \<exists>p. (v, p) \<in> insert x H \<and> polarity p = list_inv l1"
  proof
    fix v assume "v \<in> set (entries l1)"
    with s(3) have "v = fst x \<or> (polarity (snd x) = list_inv l \<and> v \<in> set (entries l))"
      by (auto split: if_splits)
    then show "\<exists>p. (v, p) \<in> insert x H \<and> polarity p = list_inv l1"
    proof
      assume "v = fst x"
      then have "(v, snd x) \<in> insert x H" by simp
      with s(2) show "\<exists>p. (v, p) \<in> insert x H \<and> polarity p = list_inv l1" by metis
    next
      assume a: "polarity (snd x) = list_inv l \<and> v \<in> set (entries l)"
      with Cons.prems(2) obtain p where "(v, p) \<in> H" "polarity p = list_inv l" by blast
      with a s(2) show "\<exists>p. (v, p) \<in> insert x H \<and> polarity p = list_inv l1" by auto
    qed
  qed
  from Cons.IH[OF s(1) h] show ?case
    by (simp add: l1_def)
qed

text \<open>
  Claim C10. For every well-formed list and every value, in the order of the
  function: a call whose flag differs from the polarity of the list drops the
  stored entries and leaves the list with the new value alone; under the same
  polarity a value already stored leaves the list as it is and returns 0, and a
  value not yet stored returns -1 on a full list, which stays as it is (and is
  appended otherwise). So after any run of calls every stored value was added under
  the polarity the list now has.
\<close>

theorem add_list_cases:
  assumes ok: "list_ok l"
  shows "(polarity inv0 \<noteq> list_inv l \<longrightarrow>
            (\<exists>l'. add_list l v inv0 = (l', 0) \<and> entries l' = [v] \<and> list_inv l' = polarity inv0)) \<and>
         (polarity inv0 = list_inv l \<and> v \<in> set (entries l) \<longrightarrow> add_list l v inv0 = (l, 0)) \<and>
         (polarity inv0 = list_inv l \<and> v \<notin> set (entries l) \<and> list_num l = LIST_MAX \<longrightarrow>
            add_list l v inv0 = (l, - 1)) \<and>
         (polarity inv0 = list_inv l \<and> v \<notin> set (entries l) \<and> list_num l < LIST_MAX \<longrightarrow>
            (\<exists>l'. add_list l v inv0 = (l', 0) \<and> entries l' = entries l @ [v] \<and>
                  list_inv l' = list_inv l)) \<and>
         (\<forall>x\<in>set (entries (add_lists zero_list xs)).
            \<exists>p. (x, p) \<in> set xs \<and> polarity p = list_inv (add_lists zero_list xs))"
proof (intro conjI impI)
  assume "polarity inv0 \<noteq> list_inv l"
  from add_list_flip[OF ok this, of v]
  show "\<exists>l'. add_list l v inv0 = (l', 0) \<and> entries l' = [v] \<and> list_inv l' = polarity inv0"
    by blast
next
  assume "polarity inv0 = list_inv l \<and> v \<in> set (entries l)"
  then show "add_list l v inv0 = (l, 0)" by (simp add: add_list_present)
next
  assume "polarity inv0 = list_inv l \<and> v \<notin> set (entries l) \<and> list_num l = LIST_MAX"
  then show "add_list l v inv0 = (l, - 1)" by (simp add: add_list_full)
next
  assume "polarity inv0 = list_inv l \<and> v \<notin> set (entries l) \<and> list_num l < LIST_MAX"
  then have a: "polarity inv0 = list_inv l" "v \<notin> set (entries l)" "list_num l < LIST_MAX"
    by simp_all
  from add_list_append[OF ok a]
  show "\<exists>l'. add_list l v inv0 = (l', 0) \<and> entries l' = entries l @ [v] \<and> list_inv l' = list_inv l"
    by blast
next
  have z: "list_ok zero_list" "entries zero_list = []"
    by (simp_all add: list_ok_def zero_list_def LIST_MAX_def entries_def)
  have "\<forall>v\<in>set (entries zero_list). \<exists>p. (v, p) \<in> {} \<and> polarity p = list_inv zero_list"
    using z(2) by simp
  from add_lists_polarity[OF z(1) this, of xs]
  show "\<forall>x\<in>set (entries (add_lists zero_list xs)).
            \<exists>p. (x, p) \<in> set xs \<and> polarity p = list_inv (add_lists zero_list xs)"
    by simp
qed

lemma ex_full_list_ok: "list_ok ex_full_list"
  by (simp add: list_ok_def ex_full_list_def LIST_MAX_def)

lemma ex_full_entries: "set (entries ex_full_list) = {0..31}"
  by (simp add: entries_def ex_full_list_def)

text \<open>
  On the full list 0..31 of polarity "in": 7 is stored already, 99 does not fit, and
  99 under the other polarity replaces everything.
\<close>

theorem add_list_cases_witness:
  "list_ok ex_full_list \<and>
   add_list ex_full_list 7 0 = (ex_full_list, 0) \<and>
   add_list ex_full_list 99 0 = (ex_full_list, - 1) \<and>
   (\<exists>l'. add_list ex_full_list 99 1 = (l', 0) \<and> entries l' = [99] \<and> list_inv l' = NOT 0) \<and>
   entries (add_lists zero_list [(5, 0), (6, 0), (7, 1), (7, 1), (8, 1)]) = [7, 8]"
proof -
  have p: "polarity 0 = list_inv ex_full_list" "polarity 1 \<noteq> list_inv ex_full_list"
    "polarity 1 = NOT 0"
    by (simp_all add: polarity_def ex_full_list_def)
  have m: "(7::int) \<in> set (entries ex_full_list)" "(99::int) \<notin> set (entries ex_full_list)"
    "list_num ex_full_list = LIST_MAX"
    by (simp_all add: ex_full_entries) (simp add: ex_full_list_def LIST_MAX_def)
  have r: "entries (add_lists zero_list [(5, 0), (6, 0), (7, 1), (7, 1), (8, 1)]) = [7, 8]"
    by code_simp
  from add_list_cases[OF ex_full_list_ok, of 0 7 "[]"] p m
  have a: "add_list ex_full_list 7 0 = (ex_full_list, 0)" by simp
  from add_list_cases[OF ex_full_list_ok, of 0 99 "[]"] p m
  have b: "add_list ex_full_list 99 0 = (ex_full_list, - 1)" by simp
  from add_list_cases[OF ex_full_list_ok, of 1 99 "[]"] p
  have c: "\<exists>l'. add_list ex_full_list 99 1 = (l', 0) \<and> entries l' = [99] \<and> list_inv l' = NOT 0"
    by simp
  from a b c r ex_full_list_ok show ?thesis by blast
qed

subsection \<open>Rule evaluation\<close>

lemma check_list_empty: "list_num l = 0 \<Longrightarrow> check_list l v = 1"
  by (simp add: check_list_def)

lemma inrange_unbounded: "inrange \<lparr>range_from = - 1, range_to = - 1\<rparr> v = 1"
  by (simp add: inrange_def)

lemma indblrange_unbounded: "indblrange \<lparr>dbl_from = - 1, dbl_to = - 1\<rparr> x = 1"
  by (simp add: indblrange_def)

lemma no_conditions_matches:
  assumes "rule_active r \<noteq> 0" "no_conditions r"
  shows "rule_matches l r"
  using assms
  by (simp add: rule_matches_def no_conditions_def init_range_def init_dblrange_def
      inrange_def indblrange_def check_list_def split: option.split)

lemma rule_matches_count [simp]: "rule_matches l (r\<lparr>rule_count := k\<rparr>) = rule_matches l r"
  by (simp add: rule_matches_def split: option.split)

text \<open>
  The first two parts of claim C3 hold as they stand, and an active rule whose
  ranges are all unbounded and whose lists and texts are all empty matches every
  request and is put to use.
\<close>

lemma empty_conditions_accept:
  assumes "list_num ls = 0" and "rule_active r \<noteq> 0" and "no_conditions r"
  shows "check_list ls v = 1 \<and>
         inrange \<lparr>range_from = - 1, range_to = - 1\<rparr> v = 1 \<and>
         indblrange \<lparr>dbl_from = - 1, dbl_to = - 1\<rparr> x = 1 \<and>
         rule_matches l r \<and>
         snd (end_request_rule l True r []) = [(rule_out r, rule_event_mask r)]"
  using assms no_conditions_matches[OF assms(2,3), of l]
  by (simp add: check_list_empty inrange_unbounded indblrange_unbounded end_request_rule_def
      add_use_def Let_def)

lemma ex_open_rule_no_conditions: "rule_active ex_open_rule \<noteq> 0 \<and> no_conditions ex_open_rule"
  by (simp add: ex_open_rule_def new_rule_ll_def no_conditions_def zero_list_def)

text \<open>
  A rule as \<open>new_rule_ll\<close> creates it is not such a rule: \<open>init_range\<close> is called
  for \<open>duration\<close>, \<open>retries\<close>, \<open>sql_rows\<close> and (as \<open>init_dblrange\<close>) for \<open>sql_cost\<close>,
  but not for \<open>vreplays\<close>, which keeps the \<open>0..0\<close> of \<open>calloc\<close>. Once active, such
  a rule passes over every request that had a verify replay.
\<close>

lemma new_rule_vreplays:
  "\<not> no_conditions (new_rule_ll nm out) \<and>
   (vreplays l \<noteq> 0 \<longrightarrow> \<not> rule_matches l ((new_rule_ll nm out)\<lparr>rule_active := 1\<rparr>))"
  by (simp add: no_conditions_def new_rule_ll_def init_range_def rule_matches_def inrange_def)

text \<open>
  Claim C3 (the code departs from its last part). The rule that the command
  \<open>go\<close> creates and activates has no condition set by anyone; the claim has it
  match every request. A request of 1500 ms with one verify replay is not matched
  and no output is put to use; the same request without the replay is matched.
\<close>

theorem new_rule_skips_replayed_request:
  "ex_new_rule = (new_rule_ll ''0'' default_out)\<lparr>rule_active := 1\<rparr> \<and>
   vreplays ex_request = 1 \<and> durationms ex_request = 1500 \<and>
   \<not> rule_matches ex_request ex_new_rule \<and>
   end_request_rules ex_request True [ex_new_rule] [] = ([ex_new_rule], []) \<and>
   rule_matches (ex_request\<lparr>vreplays := 0\<rparr>) ex_new_rule \<and>
   rule_matches ex_request ex_open_rule"
  by (simp add: ex_request_def end_request_begin_def reqlog_alloc_def ex_new_rule_def
      ex_open_rule_def new_rule_ll_def rule_matches_def inrange_def indblrange_def
      check_list_def zero_list_def init_range_def init_dblrange_def end_request_rule_def)

lemma end_request_rule_spec:
  "fst (end_request_rule l use_ok r uses) = spec_rule_after_request l r"
  by (simp add: end_request_rule_def spec_rule_after_request_def Let_def)

lemma end_request_rules_spec:
  "fst (end_request_rules l use_ok rs uses) = concat (map (spec_rule_after_request l) rs)"
proof (induction rs arbitrary: uses)
  case Nil
  show ?case by simp
next
  case (Cons r rs)
  obtain kept uses1 where k: "end_request_rule l use_ok r uses = (kept, uses1)"
    by (cases "end_request_rule l use_ok r uses")
  obtain rest uses2 where r: "end_request_rules l use_ok rs uses1 = (rest, uses2)"
    by (cases "end_request_rules l use_ok rs uses1")
  from k have "kept = spec_rule_after_request l r"
    using end_request_rule_spec[of l use_ok r uses] by simp
  moreover from r have "rest = concat (map (spec_rule_after_request l) rs)"
    using Cons.IH[of uses1] by simp
  ultimately show ?case using k r by simp
qed

text \<open>
  Claim C4. Every rule with a positive count that matches during
  \<open>reqlog_end_request\<close> has its count decremented and leaves the rule list when the
  count reaches zero; the rule list after the request is the one the specification
  describes. With a count of two and three matching requests in a row, the first two
  put the rule to use, the second removes it, and the third finds no rule.
\<close>

theorem count_decrements_and_removes:
  assumes c: "0 < rule_count r" and m: "rule_matches l r"
    and two: "rule_count r2 = 2"
    and m1: "rule_matches l1 r2" and m2: "rule_matches l2 r2" and m3: "rule_matches l3 r2"
  shows "fst (end_request_rule l use_ok r uses) =
           (if rule_count r = 1 then [] else [r\<lparr>rule_count := rule_count r - 1\<rparr>]) \<and>
         fst (end_request_rules l use_ok rs uses) = concat (map (spec_rule_after_request l) rs) \<and>
         end_request_rules l1 True [r2] [] =
           ([r2\<lparr>rule_count := 1\<rparr>], [(rule_out r2, rule_event_mask r2)]) \<and>
         end_request_rules l2 True [r2\<lparr>rule_count := 1\<rparr>] [] =
           ([], [(rule_out r2, rule_event_mask r2)]) \<and>
         end_request_rules l3 True [] [] = ([], [])"
proof (intro conjI)
  show "fst (end_request_rule l use_ok r uses) =
           (if rule_count r = 1 then [] else [r\<lparr>rule_count := rule_count r - 1\<rparr>])"
    using c m by (simp add: end_request_rule_def Let_def)
  show "fst (end_request_rules l use_ok rs uses) = concat (map (spec_rule_after_request l) rs)"
    by (rule end_request_rules_spec)
  show "end_request_rules l1 True [r2] [] =
           ([r2\<lparr>rule_count := 1\<rparr>], [(rule_out r2, rule_event_mask r2)])"
    using two m1 by (simp add: end_request_rule_def add_use_def Let_def)
  show "end_request_rules l2 True [r2\<lparr>rule_count := 1\<rparr>] [] =
           ([], [(rule_out r2, rule_event_mask r2)])"
    using m2 by (simp add: end_request_rule_def add_use_def Let_def)
  show "end_request_rules l3 True [] [] = ([], [])" by simp
qed

lemma ex_count_rule_matches: "rule_matches l ex_count_rule"
proof -
  have "rule_active ex_count_rule \<noteq> 0" "no_conditions ex_count_rule"
    using ex_open_rule_no_conditions by (simp_all add: ex_count_rule_def no_conditions_def)
  then show ?thesis by (rule no_conditions_matches)
qed

theorem count_decrements_and_removes_witness:
  "0 < rule_count ex_count_rule \<and> rule_count ex_count_rule = 2 \<and>
   rule_matches ex_request ex_count_rule \<and>
   end_request_rules ex_request True [ex_count_rule] [] =
     ([ex_count_rule\<lparr>rule_count := 1\<rparr>], [(''<stdout>'', 0)]) \<and>
   end_request_rules ex_request True [ex_count_rule\<lparr>rule_count := 1\<rparr>] [] =
     ([], [(''<stdout>'', 0)]) \<and>
   end_request_rules ex_request True [] [] = ([], [])"
proof -
  have h1: "0 < rule_count ex_count_rule" and h2: "rule_count ex_count_rule = 2"
    by (simp_all add: ex_count_rule_def)
  have h3: "rule_matches ex_request ex_count_rule" by (rule ex_count_rule_matches)
  have e: "rule_out ex_count_rule = ''<stdout>''" "rule_event_mask ex_count_rule = 0"
    by (simp_all add: ex_count_rule_def ex_open_rule_def new_rule_ll_def default_out_def)
  from count_decrements_and_removes[OF h1 h3 h2 h3 h3 h3, of True "[]" "[]"] h1 h2 h3 e
  show ?thesis by simp
qed

subsection \<open>The scan of the rules\<close>

lemma add_list_grow:
  assumes ok: "list_ok l" and pol: "polarity i = list_inv l \<or> list_num l = 0"
  shows "list_ok (fst (add_list l v i)) \<and> list_inv (fst (add_list l v i)) = polarity i \<and>
         set (entries l) \<subseteq> set (entries (fst (add_list l v i))) \<and>
         (snd (add_list l v i) = 0 \<longrightarrow> v \<in> set (entries (fst (add_list l v i))))"
proof (cases "polarity i = list_inv l")
  case True
  with add_list_summary[OF ok, of v i] show ?thesis by simp
next
  case False
  with pol have "entries l = []" by (simp add: entries_def)
  with add_list_summary[OF ok, of v i] show ?thesis by simp
qed

lemma scan_opcode_step:
  assumes ok: "scan_lists_ok s"
  shows "scan_lists_ok (scan_opcode i v s) \<and>
         master_num_stmts (scan_opcode i v s) = master_num_stmts s \<and>
         (log_all_reqs s = 1 \<longrightarrow> log_all_reqs (scan_opcode i v s) = 1) \<and>
         set (entries (master_opcode_list s)) \<subseteq> set (entries (master_opcode_list (scan_opcode i v s))) \<and>
         set (entries (master_opcode_inv_list s)) \<subseteq>
           set (entries (master_opcode_inv_list (scan_opcode i v s))) \<and>
         (log_all_reqs (scan_opcode i v s) = 1 \<or>
          (if i \<noteq> 0 then v \<in> set (entries (master_opcode_inv_list (scan_opcode i v s)))
           else v \<in> set (entries (master_opcode_list (scan_opcode i v s)))))"
proof (cases "i \<noteq> 0")
  case True
  obtain l' rc where a: "add_list (master_opcode_inv_list s) v 1 = (l', rc)"
    by (cases "add_list (master_opcode_inv_list s) v 1")
  have p: "polarity 1 = NOT 0" by (simp add: polarity_def)
  from ok have lo: "list_ok (master_opcode_inv_list s)"
    and pol: "polarity 1 = list_inv (master_opcode_inv_list s) \<or> list_num (master_opcode_inv_list s) = 0"
    by (auto simp: scan_lists_ok_def p)
  from add_list_grow[OF lo pol, of v] a p
  have g: "list_ok l'" "list_inv l' = NOT 0"
    "set (entries (master_opcode_inv_list s)) \<subseteq> set (entries l')"
    "rc = 0 \<longrightarrow> v \<in> set (entries l')" by simp_all
  have r: "scan_opcode i v s =
     (if rc \<noteq> 0 then s\<lparr>master_opcode_inv_list := l', log_all_reqs := 1\<rparr>
      else s\<lparr>master_opcode_inv_list := l'\<rparr>)"
    using True a by (simp add: scan_opcode_def)
  show ?thesis using ok g True by (simp add: r scan_lists_ok_def)
next
  case False
  obtain l' rc where a: "add_list (master_opcode_list s) v 0 = (l', rc)"
    by (cases "add_list (master_opcode_list s) v 0")
  have p: "polarity 0 = 0" by (simp add: polarity_def)
  from ok have lo: "list_ok (master_opcode_list s)"
    and pol: "polarity 0 = list_inv (master_opcode_list s) \<or> list_num (master_opcode_list s) = 0"
    by (auto simp: scan_lists_ok_def p)
  from add_list_grow[OF lo pol, of v] a p
  have g: "list_ok l'" "list_inv l' = 0"
    "set (entries (master_opcode_list s)) \<subseteq> set (entries l')"
    "rc = 0 \<longrightarrow> v \<in> set (entries l')" by simp_all
  from False have i0: "i = 0" by simp
  have r: "scan_opcode 0 v s =
     (if rc \<noteq> 0 then s\<lparr>master_opcode_list := l', log_all_reqs := 1\<rparr>
      else s\<lparr>master_opcode_list := l'\<rparr>)"
    using a by (simp add: scan_opcode_def)
  show ?thesis unfolding i0 using ok g by (simp add: r scan_lists_ok_def)
qed

lemma scan_opcodes_fold:
  "scan_lists_ok s \<Longrightarrow>
   scan_lists_ok (fold (scan_opcode i) vs s) \<and>
   master_num_stmts (fold (scan_opcode i) vs s) = master_num_stmts s \<and>
   (log_all_reqs s = 1 \<longrightarrow> log_all_reqs (fold (scan_opcode i) vs s) = 1) \<and>
   set (entries (master_opcode_list s)) \<subseteq>
     set (entries (master_opcode_list (fold (scan_opcode i) vs s))) \<and>
   set (entries (master_opcode_inv_list s)) \<subseteq>
     set (entries (master_opcode_inv_list (fold (scan_opcode i) vs s))) \<and>
   (log_all_reqs (fold (scan_opcode i) vs s) = 1 \<or>
    (if i \<noteq> 0 then set vs \<subseteq> set (entries (master_opcode_inv_list (fold (scan_opcode i) vs s)))
     else set vs \<subseteq> set (entries (master_opcode_list (fold (scan_opcode i) vs s)))))"
proof (induction vs arbitrary: s)
  case Nil
  then show ?case by simp
next
  case (Cons v vs)
  define s1 where "s1 = scan_opcode i v s"
  note st = scan_opcode_step[OF Cons.prems, of i v, folded s1_def]
  from st have ok1: "scan_lists_ok s1" by simp
  note ih = Cons.IH[OF ok1]
  have f: "fold (scan_opcode i) (v # vs) s = fold (scan_opcode i) vs s1"
    by (simp add: s1_def)
  show ?case
    unfolding f using st ih by (auto split: if_splits)
qed


lemma scan_rule_inactive: "rule_active r = 0 \<Longrightarrow> scan_rule r s = s"
  by (simp add: scan_rule_def)

lemma scan_rule_fields:
  fixes r :: logrule and s :: scan
  assumes act: "rule_active r \<noteq> 0"
  defines "s1 \<equiv> (if list_num (rule_opcode_list r) = 0 \<and> rule_stmt r = []
                   then s\<lparr>log_all_reqs := 1\<rparr> else s)"
  defines "s2 \<equiv> fold (scan_opcode (list_inv (rule_opcode_list r))) (entries (rule_opcode_list r)) s1"
  shows "master_opcode_list (scan_rule r s) = master_opcode_list s2"
    and "master_opcode_inv_list (scan_rule r s) = master_opcode_inv_list s2"
    and "master_num_stmts (scan_rule r s) =
           (if rule_stmt r \<noteq> [] \<and> master_num_stmts s2 \<noteq> NUMSTMTS
            then master_num_stmts s2 + 1 else master_num_stmts s2)"
    and "log_all_reqs (scan_rule r s) =
           (if rule_stmt r \<noteq> [] \<and> master_num_stmts s2 = NUMSTMTS then 1 else log_all_reqs s2)"
  using act by (simp_all add: scan_rule_def Let_def s1_def s2_def)

lemma opcodes_of_snoc:
  "opcodes_of b (seen @ [r]) =
     opcodes_of b seen @
     (if rule_active r \<noteq> 0 \<and> (list_inv (rule_opcode_list r) \<noteq> 0) = b
      then entries (rule_opcode_list r) else [])"
  by (simp add: opcodes_of_def)

lemma stmts_of_snoc:
  "stmts_of (seen @ [r]) =
     stmts_of seen @ (if rule_active r \<noteq> 0 \<and> rule_stmt r \<noteq> [] then [rule_stmt r] else [])"
  by (simp add: stmts_of_def)

lemma scan_rule_inv:
  assumes inv: "scan_inv seen s"
  shows "scan_inv (seen @ [r]) (scan_rule r s)"
proof (cases "rule_active r = 0")
  case True
  then have "opcodes_of b (seen @ [r]) = opcodes_of b seen" for b
    by (simp add: opcodes_of_snoc)
  moreover from True have "stmts_of (seen @ [r]) = stmts_of seen"
    by (simp add: stmts_of_snoc)
  moreover from True have "list_ex no_early_criteria (seen @ [r]) = list_ex no_early_criteria seen"
    by (simp add: no_early_criteria_def)
  ultimately show ?thesis using inv True by (simp add: scan_inv_def scan_rule_inactive)
next
  case act: False
  define s1 where "s1 = (if list_num (rule_opcode_list r) = 0 \<and> rule_stmt r = []
                          then s\<lparr>log_all_reqs := 1\<rparr> else s)"
  define i where "i = list_inv (rule_opcode_list r)"
  define vs where "vs = entries (rule_opcode_list r)"
  define s2 where "s2 = fold (scan_opcode i) vs s1"
  define s' where "s' = scan_rule r s"
  note fl = scan_rule_fields[OF act, of s, folded s1_def i_def vs_def, folded s2_def, folded s'_def]
  from inv have ok: "scan_lists_ok s" and n: "0 \<le> master_num_stmts s" "master_num_stmts s \<le> NUMSTMTS"
    by (simp_all add: scan_inv_def)
  have ok1: "scan_lists_ok s1" using ok by (simp add: s1_def scan_lists_ok_def)
  have e1: "master_opcode_list s1 = master_opcode_list s"
    "master_opcode_inv_list s1 = master_opcode_inv_list s" "master_num_stmts s1 = master_num_stmts s"
    by (simp_all add: s1_def)
  have l1: "log_all_reqs s = 1 \<or> no_early_criteria r \<longrightarrow> log_all_reqs s1 = 1"
    using act by (auto simp: s1_def no_early_criteria_def)
  note f = scan_opcodes_fold[OF ok1, of i vs, folded s2_def]
  from f have ok2: "scan_lists_ok s2" and n2: "master_num_stmts s2 = master_num_stmts s"
    by (simp_all add: e1)
  have lists: "scan_lists_ok s'"
    using ok2 by (simp add: scan_lists_ok_def fl)
  have num: "0 \<le> master_num_stmts s'" "master_num_stmts s' \<le> NUMSTMTS"
    using n n2 by (auto simp: fl)
  have rest: "log_all_reqs s' = 1 \<or>
      (set (opcodes_of False (seen @ [r])) \<subseteq> set (entries (master_opcode_list s')) \<and>
       set (opcodes_of True (seen @ [r])) \<subseteq> set (entries (master_opcode_inv_list s')) \<and>
       master_num_stmts s' = int (length (stmts_of (seen @ [r]))) \<and>
       \<not> list_ex no_early_criteria (seen @ [r]))"
  proof (cases "log_all_reqs s' = 1")
    case True
    then show ?thesis by simp
  next
    case False
    then have a4: "\<not> (rule_stmt r \<noteq> [] \<and> master_num_stmts s2 = NUMSTMTS)"
      and a2: "log_all_reqs s2 \<noteq> 1"
      by (auto simp: fl split: if_splits)
    from a2 f have a1: "log_all_reqs s1 \<noteq> 1" by auto
    with l1 have a0: "log_all_reqs s \<noteq> 1" and ne: "\<not> no_early_criteria r" by auto
    from a0 inv have P: "set (opcodes_of False seen) \<subseteq> set (entries (master_opcode_list s))"
      "set (opcodes_of True seen) \<subseteq> set (entries (master_opcode_inv_list s))"
      "master_num_stmts s = int (length (stmts_of seen))"
      "\<not> list_ex no_early_criteria seen"
      by (simp_all add: scan_inv_def)
    from f a2 have sub: "set (entries (master_opcode_list s)) \<subseteq> set (entries (master_opcode_list s2))"
      "set (entries (master_opcode_inv_list s)) \<subseteq> set (entries (master_opcode_inv_list s2))"
      "if i \<noteq> 0 then set vs \<subseteq> set (entries (master_opcode_inv_list s2))
       else set vs \<subseteq> set (entries (master_opcode_list s2))"
      by (simp_all add: e1)
    have A: "set (opcodes_of False (seen @ [r])) \<subseteq> set (entries (master_opcode_list s'))"
      using P(1) sub(1) sub(3) by (auto simp: opcodes_of_snoc fl i_def vs_def split: if_splits)
    have B: "set (opcodes_of True (seen @ [r])) \<subseteq> set (entries (master_opcode_inv_list s'))"
      using P(2) sub(2) sub(3) by (auto simp: opcodes_of_snoc fl i_def vs_def split: if_splits)
    have C: "master_num_stmts s' = int (length (stmts_of (seen @ [r])))"
      using a4 P(3) n2 act by (auto simp: fl stmts_of_snoc)
    have D: "\<not> list_ex no_early_criteria (seen @ [r])"
      using P(4) ne by simp
    from A B C D show ?thesis by simp
  qed
  show ?thesis
    unfolding scan_inv_def s'_def[symmetric] using lists num rest by simp
qed

lemma scan_fold_inv:
  "scan_inv seen s \<Longrightarrow> scan_inv (seen @ rs) (fold scan_rule rs s)"
proof (induction rs arbitrary: seen s)
  case Nil
  then show ?case by simp
next
  case (Cons r rs)
  from scan_rule_inv[OF Cons.prems, of r] have "scan_inv (seen @ [r]) (scan_rule r s)" .
  from Cons.IH[OF this] show ?case by simp
qed

lemma scan_begin_inv: "scan_inv [] (scan_begin m)"
  by (simp add: scan_inv_def scan_lists_ok_def scan_begin_def list_ok_def zero_list_def
      LIST_MAX_def NUMSTMTS_def opcodes_of_def stmts_of_def entries_def)

lemma entries_card: "list_ok l \<Longrightarrow> card (set (entries l)) \<le> LIST_MAX"
proof -
  assume "list_ok l"
  then have "length (entries l) \<le> LIST_MAX" by (simp add: entries_def list_ok_def)
  with card_length[of "entries l"] show ?thesis by linarith
qed

lemma scan_inv_forces:
  assumes inv: "scan_inv rules s"
    and c: "list_ex no_early_criteria rules \<or>
            LIST_MAX < card (set (opcodes_of False rules)) \<or>
            LIST_MAX < card (set (opcodes_of True rules)) \<or>
            nat NUMSTMTS < length (stmts_of rules)"
  shows "log_all_reqs s = 1"
proof (rule ccontr)
  assume n: "log_all_reqs s \<noteq> 1"
  with inv have P: "set (opcodes_of False rules) \<subseteq> set (entries (master_opcode_list s))"
      "set (opcodes_of True rules) \<subseteq> set (entries (master_opcode_inv_list s))"
      "master_num_stmts s = int (length (stmts_of rules))"
      "\<not> list_ex no_early_criteria rules"
      and ok: "list_ok (master_opcode_list s)" "list_ok (master_opcode_inv_list s)"
      and le: "master_num_stmts s \<le> NUMSTMTS"
    by (simp_all add: scan_inv_def scan_lists_ok_def)
  have "card (set (opcodes_of False rules)) \<le> card (set (entries (master_opcode_list s)))"
    using P(1) by (intro card_mono) simp_all
  with entries_card[OF ok(1)] have 1: "card (set (opcodes_of False rules)) \<le> LIST_MAX" by linarith
  have "card (set (opcodes_of True rules)) \<le> card (set (entries (master_opcode_inv_list s)))"
    using P(2) by (intro card_mono) simp_all
  with entries_card[OF ok(2)] have 2: "card (set (opcodes_of True rules)) \<le> LIST_MAX" by linarith
  from P(3) le have 3: "length (stmts_of rules) \<le> nat NUMSTMTS" by linarith
  from c 1 2 3 P(4) show False by auto
qed

text \<open>
  Claim C5. \<open>scanrules_ll\<close> begins by setting \<open>master_all_requests\<close>; the value it
  ends with (that of \<open>log_all_reqs\<close>, zero for an empty rule set) is set whenever
  an active rule has neither opcodes nor a statement text, whenever the active rules
  name more than 32 different opcodes of one polarity, and whenever more than 16
  active rules carry a statement text.
\<close>

theorem scanrules_all_requests:
  assumes "list_ex no_early_criteria rules \<or>
           LIST_MAX < card (set (opcodes_of False rules)) \<or>
           LIST_MAX < card (set (opcodes_of True rules)) \<or>
           16 < length (stmts_of rules)"
  shows "master_all_requests (scan_begin m) = 1 \<and>
         master_all_requests (scanrules_ll m []) = 0 \<and>
         master_all_requests (scanrules_ll m rules) = 1"
proof -
  have "scan_inv ([] @ rules) (fold scan_rule rules (scan_begin m))"
    by (rule scan_fold_inv[OF scan_begin_inv])
  then have inv: "scan_inv rules (fold scan_rule rules (scan_begin m))" by simp
  from assms have "list_ex no_early_criteria rules \<or>
            LIST_MAX < card (set (opcodes_of False rules)) \<or>
            LIST_MAX < card (set (opcodes_of True rules)) \<or>
            nat NUMSTMTS < length (stmts_of rules)"
    by (simp add: NUMSTMTS_def)
  from scan_inv_forces[OF inv this]
  have "master_all_requests (scanrules_ll m rules) = 1"
    by (simp add: scanrules_ll_def scan_end_def)
  then show ?thesis
    by (simp add: scanrules_ll_def scan_end_def scan_begin_def)
qed

lemma ex_stmts: "stmts_of ex_stmt_rules = map (\<lambda>i. ''select '' @ replicate (Suc i) (CHR ''a'')) [0..<17]"
  by (simp add: stmts_of_def ex_stmt_rules_def ex_stmt_rule_def filter_map comp_def)

text \<open>Seventeen active rules with seventeen different statement texts.\<close>

theorem scanrules_all_requests_witness:
  "16 < length (stmts_of ex_stmt_rules) \<and> distinct (stmts_of ex_stmt_rules) \<and>
   master_all_requests (scanrules_ll ex_master ex_stmt_rules) = 1 \<and>
   master_all_requests (scanrules_ll ex_master (take 16 ex_stmt_rules)) = 0"
proof -
  have h: "16 < length (stmts_of ex_stmt_rules)" by (simp add: ex_stmts)
  have d: "distinct (stmts_of ex_stmt_rules)"
    unfolding ex_stmts by (simp add: distinct_map inj_on_def)
  have z: "master_all_requests (scanrules_ll ex_master (take 16 ex_stmt_rules)) = 0"
    by (simp add: ex_stmt_rules_def ex_stmt_rule_def new_rule_ll_def scanrules_ll_def scan_end_def
        scan_begin_def scan_rule_def zero_list_def entries_def NUMSTMTS_def Let_def upt_rec)
  from scanrules_all_requests[of ex_stmt_rules ex_master] h d z show ?thesis by simp
qed

subsection \<open>The grouped report\<close>

text \<open>
  Claim C6 (the code departs from it). A count for \<open>BLOCK2_RECOM\<close> is added to
  three families and a count for \<open>BLOCK2_SNAPISOL\<close> to two, where the claim has
  exactly one; the cases that end in \<open>break\<close> reach one family each (shown for
  \<open>BLOCK2_SQL\<close> and \<open>BLOCK2_ADDDTA\<close>), as does the last case.
\<close>

theorem blockop_recom_falls_through:
  "blockop_counts_loop [(BLOCK2_RECOM, 5)] zero_summary =
     zero_summary\<lparr>recom := 5, snapisol := 5, serial := 5\<rparr> \<and>
   blockop_counts_loop [(BLOCK2_SNAPISOL, 5)] zero_summary =
     zero_summary\<lparr>snapisol := 5, serial := 5\<rparr> \<and>
   families_hit BLOCK2_RECOM 5 = 3 \<and> families_hit BLOCK2_SNAPISOL 5 = 2 \<and>
   families_hit BLOCK2_SERIAL 5 = 1 \<and> families_hit BLOCK2_SQL 5 = 1 \<and>
   families_hit BLOCK2_ADDDTA 5 = 1"
  by (simp add: blockop_counts_loop_def families_hit_def families_def zero_summary_def
      case_recom_def case_snapisol_def case_serial_def)

subsection \<open>The dump line\<close>

lemma flushdump_frame:
  assumes "flushdump l out = Some l'"
  shows "masks_kept l l' \<and> lprefix l' = lprefix l \<and> dumpline l' = dumpline l \<and>
         dumplinepos l' = (if 0 < dumplinepos l then 0 else dumplinepos l)"
  using assms by (auto simp: flushdump_def masks_kept_def Let_def split: if_splits)

lemma logger_dump_inv: "logger_inv l \<Longrightarrow> dump_inv l"
  by (simp add: logger_inv_def dump_inv_def prefix_inv_def prefix_alloc_def)

lemma dump_inv_logger:
  "logger_inv l \<Longrightarrow> dump_inv l' \<Longrightarrow> lprefix l' = lprefix l \<Longrightarrow> logger_inv l'"
  by (simp add: logger_inv_def dump_inv_def)

lemma flushdump_ok_d:
  assumes inv: "dump_inv l"
  shows "\<exists>l'. flushdump l out = Some l' \<and> dump_inv l' \<and> dumplinepos l' = 0"
proof (cases "0 < dumplinepos l")
  case True
  with inv show ?thesis
    by (simp add: flushdump_def dump_inv_def Let_def DUMPLINE_SIZE_def)
next
  case False
  with inv have "dumplinepos l = 0" by (simp add: dump_inv_def)
  with inv show ?thesis by (simp add: flushdump_def)
qed

lemma flushdump_ok:
  assumes inv: "logger_inv l"
  shows "\<exists>l'. flushdump l out = Some l' \<and> logger_inv l' \<and> dumplinepos l' = 0"
proof -
  from flushdump_ok_d[OF logger_dump_inv[OF inv], of out] obtain l' where
    f: "flushdump l out = Some l'" "dump_inv l'" "dumplinepos l' = 0" by blast
  from flushdump_frame[OF f(1)] have "lprefix l' = lprefix l" by simp
  from dump_inv_logger[OF inv f(2) this] f show ?thesis by blast
qed

lemma masks_kept_refl [simp]: "masks_kept l l"
  by (simp add: masks_kept_def)

lemma masks_kept_trans: "masks_kept a b \<Longrightarrow> masks_kept b c \<Longrightarrow> masks_kept a c"
  by (simp add: masks_kept_def)

lemma dump_loop_frame:
  "dump_loop l out s = Some l' \<Longrightarrow> masks_kept l l' \<and> lprefix l' = lprefix l"
proof (induction l out s arbitrary: l' rule: dump_loop.induct)
  case (1 l out)
  then show ?case by simp
next
  case (2 l out c cs)
  show ?case
  proof (cases "DUMPLINE_SIZE \<le> dumplinepos l")
    case True
    with "2.prems" obtain l1 where f: "flushdump l out = Some l1"
      and r: "dump_loop l1 out (c # cs) = Some l'"
      by (auto split: option.splits)
    from "2.IH"(1)[OF True f r] flushdump_frame[OF f] show ?thesis
      by (auto intro: masks_kept_trans)
  next
    case False
    show ?thesis
    proof (cases "c = newline")
      case True
      with False "2.prems" obtain l1 where f: "flushdump l out = Some l1"
        and r: "dump_loop l1 out cs = Some l'"
        by (auto split: option.splits)
      from "2.IH"(2)[OF False True f r] flushdump_frame[OF f] show ?thesis
        by (auto intro: masks_kept_trans)
    next
      case nl: False
      with False "2.prems" obtain d where st: "store (dumpline l) (dumplinepos l) c = Some d"
        and r: "dump_loop (l\<lparr>dumpline := d, dumplinepos := dumplinepos l + 1\<rparr>) out cs = Some l'"
        by (auto split: option.splits)
      from "2.IH"(3)[OF False nl st r] show ?thesis
        by (simp add: masks_kept_def)
    qed
  qed
qed

lemma dump_loop_ok:
  "logger_inv l \<Longrightarrow> \<exists>l'. dump_loop l out s = Some l' \<and> logger_inv l'"
proof (induction l out s rule: dump_loop.induct)
  case (1 l out)
  then show ?case by simp
next
  case (2 l out c cs)
  show ?case
  proof (cases "DUMPLINE_SIZE \<le> dumplinepos l")
    case True
    from flushdump_ok[OF "2.prems", of out] obtain l1 where
      f: "flushdump l out = Some l1" "logger_inv l1" by blast
    from "2.IH"(1)[OF True f] True f(1) show ?thesis by simp
  next
    case False
    show ?thesis
    proof (cases "c = newline")
      case True
      from flushdump_ok[OF "2.prems", of out] obtain l1 where
        f: "flushdump l out = Some l1" "logger_inv l1" by blast
      from "2.IH"(2)[OF False True f] False True f(1) show ?thesis by simp
    next
      case nl: False
      from "2.prems" False have b: "0 \<le> dumplinepos l" "dumplinepos l < int (length (dumpline l))"
        by (simp_all add: logger_inv_def)
      define d where "d = (dumpline l)[nat (dumplinepos l) := c]"
      from b have st: "store (dumpline l) (dumplinepos l) c = Some d"
        by (simp add: store_def d_def)
      have "logger_inv (l\<lparr>dumpline := d, dumplinepos := dumplinepos l + 1\<rparr>)"
        using "2.prems" False by (simp add: logger_inv_def d_def)
      from "2.IH"(3)[OF False nl st this] False nl st show ?thesis by simp
    qed
  qed
qed

lemma dump_ok:
  assumes "logger_inv l" "len \<le> int (length s)"
  shows "\<exists>l'. dump l out s len = Some l' \<and> logger_inv l'"
  using assms dump_loop_ok[of l out "take (nat len) s"] by (simp add: dump_def)

lemma dump_frame:
  "dump l out s len = Some l' \<Longrightarrow> masks_kept l l' \<and> lprefix l' = lprefix l"
  by (auto simp: dump_def dest: dump_loop_frame split: if_splits)




subsection \<open>The calls on a logger\<close>

lemma append_event_inv [simp]: "logger_inv (reqlog_append_event l e) = logger_inv l"
  by (simp add: logger_inv_def reqlog_append_event_def)

lemma append_event_masks [simp]: "masks_kept l (reqlog_append_event l e)"
  by (simp add: masks_kept_def reqlog_append_event_def)

lemma lprefix_update_inv:
  "logger_inv l \<Longrightarrow> prefix_inv p \<Longrightarrow> logger_inv (l\<lparr>lprefix := p\<rparr>)"
  by (simp add: logger_inv_def)

lemma reset_inv: "logger_inv (reqlog_reset_logger l)"
  by (simp add: logger_inv_def reqlog_reset_logger_def prefix_inv_def prefix_alloc_def
      frames_def PREFIX_SIZE_def MAX_PREFIXES_def DUMPLINE_SIZE_def)

lemma reset_mask: "mask_inv (reqlog_reset_logger l)"
  by (simp add: mask_inv_def reqlog_reset_logger_def)

lemma start_request_mask: "mask_inv (reqlog_start_request c g m l)"
  by (simp add: mask_inv_def reqlog_start_request_def Let_def)

lemma start_request_inv: "logger_inv (reqlog_start_request c g m l) = logger_inv l"
  by (simp add: logger_inv_def reqlog_start_request_def Let_def split: option.split)

lemma logger_inv_frame:
  "logger_inv l \<Longrightarrow> lprefix l' = lprefix l \<Longrightarrow> dumpline l' = dumpline l \<Longrightarrow>
   dumplinepos l' = dumplinepos l \<Longrightarrow> logger_inv l'"
  by (simp add: logger_inv_def)

lemma new_request_ok:
  "mask_inv (reqlog_new_request c g m q l) \<and> logger_inv (reqlog_new_request c g m q l)"
proof -
  define l2 where "l2 = (reqlog_reset_logger l)\<lparr>startms := iq_nowms q, iq := Some q,
      opcode := iq_opcode q,
      request_type := (if iq_is_fromsocket q \<noteq> 0 then ''socket/fstsnd request''
                       else ''regular request'')\<rparr>"
  have "logger_inv l2"
    by (rule logger_inv_frame[OF reset_inv[of l]]) (simp_all add: l2_def)
  then have "logger_inv (reqlog_start_request c g m l2)" by (simp add: start_request_inv)
  then show ?thesis
    by (simp add: reqlog_new_request_def Let_def start_request_mask l2_def)
qed

lemma diffstat_init_ok:
  "mask_inv (reqlog_diffstat_init c l) \<and> logger_inv (reqlog_diffstat_init c l)"
  using reset_inv[of l]
  by (simp add: reqlog_diffstat_init_def Let_def mask_inv_def logger_inv_def)
     (simp add: reqlog_reset_logger_def)

lemma masks_kept_inv: "masks_kept l l' \<Longrightarrow> mask_inv l \<Longrightarrow> mask_inv l'"
  by (simp add: masks_kept_def mask_inv_def)

lemma logl_masks:
  "reqlog_logl l flag s ev_ok = Some (l', rc0) \<Longrightarrow> masks_kept l l'"
  by (auto simp: reqlog_logl_def Let_def masks_kept_def reqlog_append_event_def
      dest!: dump_frame split: if_splits)

lemma logl_ok:
  assumes inv: "logger_inv l"
  shows "\<exists>l' rc0. reqlog_logl l flag s ev_ok = Some (l', rc0) \<and> logger_inv l'"
proof -
  define l1 where "l1 = (if event_mask l AND flag \<noteq> 0
                      then reqlog_append_event l (EVENT_PRINT flag (- 1) s) else l)"
  have i1: "logger_inv l1" using inv by (simp add: l1_def)
  from dump_ok[OF i1, of "int (length s)" s None] obtain l2 where
    "dump l1 None s (int (length s)) = Some l2" "logger_inv l2" by auto
  with inv i1 show ?thesis
    by (auto simp: reqlog_logl_def Let_def l1_def[symmetric])
qed

lemma logll_masks:
  "reqlog_logll l flag s len ev_ok = Some (l', rc0) \<Longrightarrow> masks_kept l l'"
  by (auto simp: reqlog_logll_def Let_def masks_kept_def reqlog_append_event_def
      dest!: dump_frame split: if_splits)

lemma logll_ok:
  assumes inv: "logger_inv l" and len: "len \<le> int (length s)"
  shows "\<exists>l' rc0. reqlog_logll l flag s len ev_ok = Some (l', rc0) \<and> logger_inv l'"
proof -
  define l1 where "l1 = (if event_mask l AND flag \<noteq> 0
                      then reqlog_append_event l (EVENT_PRINT flag len s) else l)"
  have i1: "logger_inv l1" using inv by (simp add: l1_def)
  from dump_ok[OF i1 len, of None] obtain l2 where
    "dump l1 None s len = Some l2" "logger_inv l2" by auto
  with inv i1 show ?thesis
    by (auto simp: reqlog_logll_def Let_def l1_def[symmetric])
qed

text \<open>The text and length that the formatting hands on always agree.\<close>

lemma formatted_text_ok:
  fixes fmt :: "char list"
  defines "big \<equiv> (256 \<le> length fmt)"
  shows "text_ok (if big \<and> t = 0 then fmt else take 255 fmt,
                  if big \<and> \<not> (big \<and> t = 0) then 255 else int (length fmt))"
  by (auto simp: text_ok_def big_def min_def)

lemma logv_int_masks:
  "reqlog_logv_int g l flag fmt str_ok ev_ok = Some (l', rc0) \<Longrightarrow> masks_kept l l'"
  by (auto simp: reqlog_logv_int_def Let_def masks_kept_def reqlog_append_event_def
      dest!: dump_frame split: if_splits option.splits)

lemma logv_int_ok:
  assumes inv: "logger_inv l"
  shows "\<exists>l' rc0. reqlog_logv_int g l flag fmt str_ok ev_ok = Some (l', rc0) \<and> logger_inv l'"
proof -
  define big where "big = (256 \<le> length fmt)"
  define onheap where "onheap = (big \<and> reqltruncate g = 0)"
  define len where "len = (if big \<and> \<not> onheap then 255 else int (length fmt))"
  define tx where "tx = (if onheap then fmt else take 255 fmt)"
  have "text_ok (tx, len)"
    using formatted_text_ok[of fmt "reqltruncate g"]
    by (simp add: tx_def len_def onheap_def big_def)
  then have le: "len \<le> int (length tx)" by (simp add: text_ok_def)
  from dump_ok[OF inv le, of None] obtain l2 where
    d: "dump l None tx len = Some l2" "logger_inv l2" by auto
  have r: "reqlog_logv_int g l flag fmt str_ok ev_ok =
     (if onheap \<and> \<not> str_ok then Some (l, - 1)
         else
           (case (if dump_mask l AND flag \<noteq> 0 then dump l None tx len else Some l) of
              None \<Rightarrow> None
            | Some l1 \<Rightarrow>
                if event_mask l1 AND flag \<noteq> 0 then
                  (if \<not> onheap \<and> \<not> str_ok then Some (l1, - 1)
                   else if \<not> ev_ok then Some (l1, - 1)
                   else Some (reqlog_append_event l1 (EVENT_PRINT flag len tx), 0))
                else Some (l1, 0)))"
    unfolding reqlog_logv_int_def Let_def big_def onheap_def len_def tx_def ..
  show ?thesis unfolding r using inv d by auto
qed

lemma pushprefixv_masks:
  "reqlog_pushprefixv g l fmt str_ok ev_ok = Some (l', rc0) \<Longrightarrow> masks_kept l l'"
  by (auto simp: reqlog_pushprefixv_def Let_def masks_kept_def reqlog_append_event_def
      dest!: flushdump_frame split: if_splits option.splits)

lemma pushprefixv_ok:
  assumes inv: "logger_inv l" and lt: "stack_pos (lprefix l) < INT_MAX"
  shows "\<exists>l' rc0. reqlog_pushprefixv g l fmt str_ok ev_ok = Some (l', rc0) \<and> logger_inv l'"
proof -
  define big where "big = (256 \<le> length fmt)"
  define onheap where "onheap = (big \<and> reqltruncate g = 0)"
  define len where "len = (if big \<and> \<not> onheap then 255 else int (length fmt))"
  define tx where "tx = (if onheap then fmt else take 255 fmt)"
  have tok: "text_ok (tx, len)"
    using formatted_text_ok[of fmt "reqltruncate g"]
    by (simp add: tx_def len_def onheap_def big_def)
  from flushdump_ok[OF inv, of None] obtain l0 where
    f: "flushdump l None = Some l0" "logger_inv l0" by blast
  from flushdump_frame[OF f(1)] have pe: "lprefix l0 = lprefix l" by simp
  from f(2) have pi: "prefix_inv (lprefix l0)" by (simp add: logger_inv_def)
  from prefix_push_ok[OF pi tok] lt pe obtain p where
    p: "prefix_push (lprefix l0) tx len = Some p" "prefix_inv p" by auto
  have i1: "logger_inv (l0\<lparr>lprefix := p\<rparr>)" by (rule lprefix_update_inv[OF f(2) p(2)])
  have r: "reqlog_pushprefixv g l fmt str_ok ev_ok =
     (if onheap \<and> \<not> str_ok then Some (l, - 1)
         else
           (case (if dump_mask l \<noteq> 0 then
                    (case flushdump l None of
                       None \<Rightarrow> None
                     | Some l0 \<Rightarrow>
                         map_option (\<lambda>p. l0\<lparr>lprefix := p\<rparr>) (prefix_push (lprefix l0) tx len))
                  else Some l) of
              None \<Rightarrow> None
            | Some l1 \<Rightarrow>
                if event_mask l1 \<noteq> 0 then
                  (if \<not> onheap \<and> \<not> str_ok then Some (l1, - 1)
                   else if \<not> ev_ok then Some (l1, - 1)
                   else Some (reqlog_append_event l1 (EVENT_PUSH_PREFIX len tx), 0))
                else Some (l1, 0)))"
    unfolding reqlog_pushprefixv_def Let_def big_def onheap_def len_def tx_def ..
  show ?thesis unfolding r using inv f p i1 by auto
qed

lemma popprefix_masks:
  "reqlog_popprefix l ev_ok = Some (l', rc0) \<Longrightarrow> masks_kept l l'"
  by (auto simp: reqlog_popprefix_def Let_def masks_kept_def reqlog_append_event_def
      dest!: flushdump_frame split: if_splits option.splits)

lemma popprefix_ok:
  assumes inv: "logger_inv l"
  shows "\<exists>l' rc0. reqlog_popprefix l ev_ok = Some (l', rc0) \<and> logger_inv l'"
proof -
  from flushdump_ok[OF inv, of None] obtain l0 where
    f: "flushdump l None = Some l0" "logger_inv l0" by blast
  from f(2) have pi: "prefix_inv (lprefix l0)" by (simp add: logger_inv_def)
  from prefix_pop_total[OF pi] obtain p where
    p: "prefix_pop (lprefix l0) = Some p" "prefix_inv p" by auto
  have i1: "logger_inv (l0\<lparr>lprefix := p\<rparr>)" by (rule lprefix_update_inv[OF f(2) p(2)])
  show ?thesis using inv f p i1 by (auto simp: reqlog_popprefix_def)
qed

lemma popallprefixes_masks:
  "reqlog_popallprefixes l ev_ok = Some (l', rc0) \<Longrightarrow> masks_kept l l'"
  by (auto simp: reqlog_popallprefixes_def Let_def masks_kept_def reqlog_append_event_def
      dest!: flushdump_frame split: if_splits option.splits)

lemma popallprefixes_ok:
  assumes inv: "logger_inv l"
  shows "\<exists>l' rc0. reqlog_popallprefixes l ev_ok = Some (l', rc0) \<and> logger_inv l'"
proof -
  from flushdump_ok[OF inv, of None] obtain l0 where
    f: "flushdump l None = Some l0" "logger_inv l0" by blast
  from f(2) have pa: "prefix_alloc (lprefix l0)" by (simp add: logger_inv_def prefix_inv_def)
  from prefix_pop_all_ok[OF pa] obtain p where
    p: "prefix_pop_all (lprefix l0) = Some p" "prefix_inv p" by auto
  have i1: "logger_inv (l0\<lparr>lprefix := p\<rparr>)" by (rule lprefix_update_inv[OF f(2) p(2)])
  show ?thesis using inv f p i1 by (auto simp: reqlog_popallprefixes_def)
qed

lemma new_sql_request_ok:
  "\<exists>l'. reqlog_new_sql_request c g m sqlstmt now dup_ok ev_ok l = Some l' \<and>
        mask_inv l' \<and> logger_inv l'"
proof -
  define l3 where "l3 = (case sqlstmt of
                  None \<Rightarrow> (reqlog_reset_logger l)\<lparr>request_type := ''sql request'', opcode := OP_SQL c\<rparr>
                | Some s \<Rightarrow> (reqlog_reset_logger l)\<lparr>request_type := ''sql request'', opcode := OP_SQL c,
                     stmt := (if dup_ok then Some s else None)\<rparr>)"
  define l4 where "l4 = reqlog_start_request c g m (l3\<lparr>startms := now\<rparr>)"
  have "logger_inv (l3\<lparr>startms := now\<rparr>)"
    by (rule logger_inv_frame[OF reset_inv[of l]]) (simp_all add: l3_def split: option.split)
  then have i4: "logger_inv l4" by (simp add: l4_def start_request_inv)
  have m4: "mask_inv l4" by (simp add: l4_def start_request_mask)
  have r: "reqlog_new_sql_request c g m sqlstmt now dup_ok ev_ok l =
      (case stmt l4 of None \<Rightarrow> Some l4
         | Some s \<Rightarrow> map_option fst (reqlog_logl l4 (REQL_INFO c) s ev_ok))"
    by (simp add: reqlog_new_sql_request_def Let_def l4_def l3_def split: option.split)
  show ?thesis
  proof (cases "stmt l4")
    case None
    with r i4 m4 show ?thesis by simp
  next
    case (Some s)
    from logl_ok[OF i4, of "REQL_INFO c" s ev_ok] obtain l' rc0 where
      a: "reqlog_logl l4 (REQL_INFO c) s ev_ok = Some (l', rc0)" "logger_inv l'" by blast
    from logl_masks[OF a(1)] m4 have "mask_inv l'" by (rule masks_kept_inv)
    with r Some a show ?thesis by simp
  qed
qed

lemma call_masks:
  assumes "call c g m l x = Some l'" and "mask_inv l"
  shows "mask_inv l'"
proof (cases x)
  case Reset
  with assms show ?thesis using reset_mask by auto
next
  case (NewRequest q)
  with assms show ?thesis using new_request_ok by auto
next
  case (NewSqlRequest sqlstmt now dup_ok ev_ok)
  with assms new_sql_request_ok[of c g m sqlstmt now dup_ok ev_ok l] show ?thesis by auto
next
  case DiffstatInit
  with assms show ?thesis using diffstat_init_ok by auto
next
  case (PushPrefix fmt str_ok ev_ok)
  with assms show ?thesis by (auto dest: pushprefixv_masks masks_kept_inv)
next
  case (PopPrefix ev_ok)
  with assms show ?thesis by (auto dest: popprefix_masks masks_kept_inv)
next
  case (PopAllPrefixes ev_ok)
  with assms show ?thesis by (auto dest: popallprefixes_masks masks_kept_inv)
next
  case (Logf flag fmt str_ok ev_ok)
  with assms show ?thesis
    by (auto simp: reqlog_logf_def dest: logv_int_masks masks_kept_inv split: if_splits)
next
  case (Logl flag s ev_ok)
  with assms show ?thesis by (auto dest: logl_masks masks_kept_inv)
next
  case (Logll flag s len ev_ok)
  with assms show ?thesis by (auto dest: logll_masks masks_kept_inv)
next
  case (UseTable tablename tab_ok)
  with assms show ?thesis
    by (auto simp: reqlog_usetable_def mask_inv_def split: if_splits option.splits)
next
  case (SetFlag flag)
  with assms show ?thesis by (auto simp: reqlog_setflag_def mask_inv_def)
next
  case (SetCost cost)
  with assms show ?thesis by (auto simp: reqlog_set_cost_def mask_inv_def)
next
  case (SetRows rows)
  with assms show ?thesis by (auto simp: reqlog_set_rows_def mask_inv_def)
next
  case (SetVreplays replays)
  with assms show ?thesis by (auto simp: reqlog_set_vreplays_def mask_inv_def)
next
  case (SetQueueTime timems)
  with assms show ?thesis by (auto simp: reqlog_set_queue_time_def mask_inv_def)
next
  case (SetOrigin fmt)
  with assms show ?thesis by (auto simp: reqlog_set_origin_def mask_inv_def)
qed

lemma call_defined:
  assumes inv: "logger_inv l" and ok: "call_ok l x"
  shows "\<exists>l'. call c g m l x = Some l' \<and> logger_inv l'"
proof (cases x)
  case Reset
  then show ?thesis using reset_inv by simp
next
  case (NewRequest q)
  then show ?thesis using new_request_ok by simp
next
  case (NewSqlRequest sqlstmt now dup_ok ev_ok)
  with new_sql_request_ok[of c g m sqlstmt now dup_ok ev_ok l] show ?thesis by auto
next
  case DiffstatInit
  then show ?thesis using diffstat_init_ok by simp
next
  case (PushPrefix fmt str_ok ev_ok)
  with ok have "stack_pos (lprefix l) < INT_MAX" by simp
  from pushprefixv_ok[OF inv this, of g fmt str_ok ev_ok] PushPrefix show ?thesis by auto
next
  case (PopPrefix ev_ok)
  with popprefix_ok[OF inv, of ev_ok] show ?thesis by auto
next
  case (PopAllPrefixes ev_ok)
  with popallprefixes_ok[OF inv, of ev_ok] show ?thesis by auto
next
  case (Logf flag fmt str_ok ev_ok)
  with logv_int_ok[OF inv, of g flag fmt str_ok ev_ok] inv show ?thesis
    by (auto simp: reqlog_logf_def)
next
  case (Logl flag s ev_ok)
  with logl_ok[OF inv, of flag s ev_ok] show ?thesis by auto
next
  case (Logll flag s len ev_ok)
  with ok have "len \<le> int (length s)" by simp
  from logll_ok[OF inv this, of flag ev_ok] Logll show ?thesis by auto
next
  case (UseTable tablename tab_ok)
  with inv show ?thesis
    by (auto simp: reqlog_usetable_def logger_inv_def split: option.splits)
next
  case (SetFlag flag)
  with inv show ?thesis by (simp add: reqlog_setflag_def logger_inv_def)
next
  case (SetCost cost)
  with inv show ?thesis by (simp add: reqlog_set_cost_def logger_inv_def)
next
  case (SetRows rows)
  with inv show ?thesis by (simp add: reqlog_set_rows_def logger_inv_def)
next
  case (SetVreplays replays)
  with inv show ?thesis by (simp add: reqlog_set_vreplays_def logger_inv_def)
next
  case (SetQueueTime timems)
  with inv show ?thesis by (simp add: reqlog_set_queue_time_def logger_inv_def)
next
  case (SetOrigin fmt)
  with inv show ?thesis by (simp add: reqlog_set_origin_def logger_inv_def)
qed

lemma calls_masks:
  "calls c g m l xs = Some l' \<Longrightarrow> mask_inv l \<Longrightarrow> mask_inv l'"
proof (induction xs arbitrary: l)
  case Nil
  then show ?case by simp
next
  case (Cons x xs)
  from Cons.prems(1) obtain l1 where a: "call c g m l x = Some l1" "calls c g m l1 xs = Some l'"
    by (auto split: option.splits)
  from call_masks[OF a(1) Cons.prems(2)] have "mask_inv l1" .
  from Cons.IH[OF a(2) this] show ?case .
qed

lemma alloc_inv: "logger_inv reqlog_alloc \<and> mask_inv reqlog_alloc"
  by (simp add: logger_inv_def mask_inv_def reqlog_alloc_def prefix_inv_def prefix_alloc_def
      frames_def PREFIX_SIZE_def MAX_PREFIXES_def DUMPLINE_SIZE_def)

text \<open>
  Claim C1. On every logger \<open>mask\<close> is the bitwise or of \<open>event_mask\<close> and
  \<open>dump_mask\<close>: on the logger as allocated, after a reset, after the start of a
  request in each of its three forms, after the diffstat initialisation, and after
  any run of calls that starts from a logger where it holds. Every legal call on a
  well-formed logger is defined and keeps it.
\<close>

theorem mask_is_or_of_masks:
  assumes "mask_inv l" and "calls c g m l xs = Some l'"
    and "logger_inv l2" and "mask_inv l2" and "call_ok l2 x"
  shows "mask_inv reqlog_alloc \<and>
         mask_inv (reqlog_reset_logger l0) \<and>
         mask_inv (reqlog_start_request c g m l0) \<and>
         mask_inv (reqlog_new_request c g m q l0) \<and>
         (\<exists>l1. reqlog_new_sql_request c g m sqlstmt now dup_ok ev_ok l0 = Some l1 \<and> mask_inv l1) \<and>
         mask_inv (reqlog_diffstat_init c l0) \<and>
         mask_inv l' \<and>
         (\<exists>l3. call c g m l2 x = Some l3 \<and> logger_inv l3 \<and> mask_inv l3)"
proof -
  from call_defined[OF assms(3,5), of c g m] obtain l3 where
    a: "call c g m l2 x = Some l3" "logger_inv l3" by blast
  from call_masks[OF a(1) assms(4)] a
  have 1: "\<exists>l3. call c g m l2 x = Some l3 \<and> logger_inv l3 \<and> mask_inv l3" by blast
  from new_sql_request_ok[of c g m sqlstmt now dup_ok ev_ok l0]
  have 2: "\<exists>l1. reqlog_new_sql_request c g m sqlstmt now dup_ok ev_ok l0 = Some l1 \<and> mask_inv l1"
    by blast
  from calls_masks[OF assms(2,1)] have 3: "mask_inv l'" .
  from 1 2 3 alloc_inv reset_mask[of l0] start_request_mask[of c g m l0]
    new_request_ok[of c g m q l0] diffstat_init_ok[of c l0]
  show ?thesis by simp
qed

text \<open>
  A request with a debugged \<open>ireq\<close>: the trace class is dumped, the info class and
  the master classes are gathered, and \<open>mask\<close> is their union throughout.
\<close>

theorem mask_is_or_of_masks_witness:
  "mask_inv reqlog_alloc \<and> logger_inv reqlog_alloc \<and> call_ok reqlog_alloc (PushPrefix ''a '' True True) \<and>
   (\<exists>l'. calls ex_consts ex_globals ex_master reqlog_alloc ex_calls = Some l' \<and> mask_inv l' \<and>
         event_mask l' = 5 \<and> dump_mask l' = 2 \<and> mask l' = 7) \<and>
   (\<exists>l3. call ex_consts ex_globals ex_master reqlog_alloc (PushPrefix ''a '' True True) = Some l3 \<and>
         mask_inv l3)"
proof -
  have h1: "mask_inv reqlog_alloc" and h3: "logger_inv reqlog_alloc"
    using alloc_inv by simp_all
  have h5: "call_ok reqlog_alloc (PushPrefix ''a '' True True)"
    by (simp add: reqlog_alloc_def INT_MAX_def)
  have d: "map_option (\<lambda>l. (event_mask l, dump_mask l, mask l))
             (calls ex_consts ex_globals ex_master reqlog_alloc ex_calls) = Some (5, 2, 7)"
    by code_simp
  then obtain l' where h2: "calls ex_consts ex_globals ex_master reqlog_alloc ex_calls = Some l'"
    and v: "event_mask l' = 5" "dump_mask l' = 2" "mask l' = 7"
    by auto
  from mask_is_or_of_masks[OF h1 h2 h3 h1 h5]
  have "mask_inv l'"
    and "\<exists>l3. call ex_consts ex_globals ex_master reqlog_alloc (PushPrefix ''a '' True True) = Some l3 \<and>
         mask_inv l3"
    by blast+
  with h1 h3 h5 h2 v show ?thesis by blast
qed

subsection \<open>The bounds of the dump line\<close>









subsection \<open>Snapshots of the per-host counters\<close>
















end
